theory Spec2Isabelle
  imports Main "HOL-Library.Multiset" "HOL-Library.Sublist"
begin

section \<open>JavaScript strings\<close>

text \<open>
  A JavaScript string is a sequence of UTF-16 code units. The model uses HOL strings and
  reads a character as the code unit with the same number, so it covers the strings whose
  code units lie in U+0000..U+00FF; every literal of \<^verbatim>\<open>src/sanitize.js\<close> is ASCII.
  On that range \<^verbatim>\<open>\s\<close> (and what \<^verbatim>\<open>trim\<close> strips) is TAB, LF, VT, FF, CR,
  SPACE and NBSP, and \<^verbatim>\<open>toLowerCase\<close> adds 0x20 to A..Z and to U+00C0..U+00DE other
  than U+00D7. The DOM converts names to ASCII lowercase: it adds 0x20 to A..Z only.
\<close>

definition codeUnit :: "char \<Rightarrow> nat" where
  "codeUnit c = of_char c"

definition isWhiteSpace :: "char \<Rightarrow> bool" where
  "isWhiteSpace c \<longleftrightarrow> codeUnit c \<in> {0x09, 0x0A, 0x0B, 0x0C, 0x0D, 0x20, 0xA0}"

definition isControlOrSpace :: "char \<Rightarrow> bool" where
  \<comment> \<open>the character class \<^verbatim>\<open>[\u0000-\u001F\u007F\s]\<close>\<close>
  "isControlOrSpace c \<longleftrightarrow> codeUnit c \<le> 0x1F \<or> codeUnit c = 0x7F \<or> isWhiteSpace c"

definition lowerChar :: "char \<Rightarrow> char" where
  "lowerChar c =
     (if (0x41 \<le> codeUnit c \<and> codeUnit c \<le> 0x5A) \<or>
         (0xC0 \<le> codeUnit c \<and> codeUnit c \<le> 0xDE \<and> codeUnit c \<noteq> 0xD7)
      then char_of (codeUnit c + 0x20) else c)"

definition toLowerCase :: "string \<Rightarrow> string" where
  "toLowerCase s = map lowerChar s"

definition asciiLowerChar :: "char \<Rightarrow> char" where
  "asciiLowerChar c =
     (if 0x41 \<le> codeUnit c \<and> codeUnit c \<le> 0x5A then char_of (codeUnit c + 0x20) else c)"

definition asciiLowerCase :: "string \<Rightarrow> string" where
  "asciiLowerCase s = map asciiLowerChar s"

definition trim :: "string \<Rightarrow> string" where
  "trim s = rev (dropWhile isWhiteSpace (rev (dropWhile isWhiteSpace s)))"

definition startsWith :: "string \<Rightarrow> string \<Rightarrow> bool" where
  "startsWith s p \<longleftrightarrow> take (length p) s = p"

fun indexOf :: "string \<Rightarrow> string \<Rightarrow> int" where
  "indexOf [] p = (if p = [] then 0 else - 1)"
| "indexOf (c # cs) p =
     (if startsWith (c # cs) p then 0
      else (let r = indexOf cs p in if r < 0 then - 1 else r + 1))"

definition slice0 :: "string \<Rightarrow> int \<Rightarrow> string" where
  \<comment> \<open>\<^verbatim>\<open>s.slice(0, e)\<close> for a non-negative end\<close>
  "slice0 s e = take (nat e) s"

definition stripControlAndSpace :: "string \<Rightarrow> string" where
  \<comment> \<open>\<^verbatim>\<open>replace(/[\u0000-\u001F\u007F\s]+/g, "")\<close>\<close>
  "stripControlAndSpace s = filter (\<lambda>c. \<not> isControlOrSpace c) s"

function splitWs :: "string \<Rightarrow> string list" where
  \<comment> \<open>\<^verbatim>\<open>split(/\s+/)\<close>: the pieces between maximal runs of white space\<close>
  "splitWs [] = [[]]"
| "splitWs (c # cs) =
     (if isWhiteSpace c then [] # splitWs (dropWhile isWhiteSpace cs)
      else (case splitWs cs of p # ps \<Rightarrow> (c # p) # ps | [] \<Rightarrow> [[c]]))"
  by pat_completeness auto
termination
  by (relation "measure length") (auto simp: length_dropWhile_le less_Suc_eq_le)

fun join :: "string \<Rightarrow> string list \<Rightarrow> string" where
  "join sep [] = []"
| "join sep [x] = x"
| "join sep (x # y # ys) = x @ sep @ join sep (y # ys)"

text \<open>A JavaScript \<^verbatim>\<open>Set\<close> of strings keeps its members in insertion order.\<close>

definition setAdd :: "string \<Rightarrow> string list \<Rightarrow> string list" where
  "setAdd x s = (if x \<in> set s then s else s @ [x])"

definition newSet :: "string list \<Rightarrow> string list" where
  "newSet xs = fold setAdd xs []"

section \<open>Policy tables\<close>

definition SAFE_ELEMENTS :: "string set" where
  "SAFE_ELEMENTS =
     {''a'', ''abbr'', ''b'', ''blockquote'', ''br'', ''code'', ''div'', ''em'', ''i'', ''img'',
      ''li'', ''ol'', ''p'', ''pre'', ''s'', ''small'', ''span'', ''strong'', ''sub'', ''sup'',
      ''table'', ''tbody'', ''td'', ''th'', ''thead'', ''tr'', ''u'', ''ul'', ''hr'', ''h1'',
      ''h2'', ''h3'', ''h4'', ''h5'', ''h6'', ''section'', ''article'', ''nav'', ''header'',
      ''footer''}"

definition GLOBAL_ATTRS :: "string set" where
  "GLOBAL_ATTRS = {''class'', ''id'', ''title'', ''role''}"

definition ALWAYS_DROP :: "string set" where
  "ALWAYS_DROP =
     {''script'', ''style'', ''template'', ''iframe'', ''object'', ''embed'',
      ''svg'', ''math'', ''base'', ''link'', ''meta''}"

text \<open>
  \<^verbatim>\<open>TAG_ATTRS\<close> is an object literal, and \<^verbatim>\<open>TAG_ATTRS[tag]\<close> is a property read: it
  finds the object's own properties first and then those of \<^verbatim>\<open>Object.prototype\<close>.
  A read yields a \<^verbatim>\<open>Set\<close> for one of the eight own keys, an inherited function or
  object for a property name of \<^verbatim>\<open>Object.prototype\<close>, and \<^verbatim>\<open>undefined\<close> otherwise.
\<close>

datatype property = OwnSet "string set" | Inherited | Undefined

definition OBJECT_PROTOTYPE :: "string set" where
  "OBJECT_PROTOTYPE =
     {''constructor'', ''__proto__'', ''hasOwnProperty'', ''isPrototypeOf'',
      ''propertyIsEnumerable'', ''toLocaleString'', ''toString'', ''valueOf'',
      ''__defineGetter__'', ''__defineSetter__'', ''__lookupGetter__'', ''__lookupSetter__''}"

definition TAG_ATTRS :: "string \<Rightarrow> property" where
  "TAG_ATTRS tag =
     (if tag = ''a'' then OwnSet {''href'', ''target'', ''rel''}
      else if tag = ''img'' then OwnSet {''src'', ''alt'', ''width'', ''height''}
      else if tag \<in> {''table'', ''thead'', ''tbody'', ''tr'', ''th'', ''td''} then OwnSet {}
      else if tag \<in> OBJECT_PROTOTYPE then Inherited
      else Undefined)"

datatype error = TypeError | HierarchyRequestError | NotFoundError | NoDomAvailable

section \<open>Url validator\<close>

definition isSafeUrl :: "string option \<Rightarrow> bool" where
  "isSafeUrl raw =
     (case raw of
        None \<Rightarrow> True
      | Some r \<Rightarrow>
          if r = [] then True
          else
            (let val = trim r;
                 compact = toLowerCase (stripControlAndSpace val)
             in if startsWith compact ''javascript:'' then False
                else if startsWith compact ''vbscript:'' then False
                else if startsWith compact ''data:'' then False
                else if startsWith compact ''file:'' then False
                else if startsWith compact ''//'' then True
                else
                  (let colon = indexOf compact '':''
                   in if colon > 0
                      then (let scheme = slice0 compact colon
                            in scheme = ''http'' \<or> scheme = ''https'')
                      else True)))"

text \<open>The validator as section 4.2 of the specification words it.\<close>

definition firstColon :: "string \<Rightarrow> nat option" where
  "firstColon s = (if CHR '':'' \<in> set s then Some (length (takeWhile (\<lambda>c. c \<noteq> CHR '':'') s)) else None)"

definition isSafeUrl_spec :: "string option \<Rightarrow> bool" where
  "isSafeUrl_spec raw =
     (case raw of
        None \<Rightarrow> True
      | Some r \<Rightarrow>
          if r = [] then True
          else
            (let normalized = toLowerCase (filter (\<lambda>c. \<not> isControlOrSpace c) r)
             in if startsWith normalized ''javascript:'' \<or> startsWith normalized ''vbscript:'' \<or>
                   startsWith normalized ''data:'' \<or> startsWith normalized ''file:'' then False
                else if startsWith normalized ''//'' then True
                else
                  (case firstColon normalized of
                     Some k \<Rightarrow>
                       if k > 0 then take k normalized \<in> {''http'', ''https''} else True
                   | None \<Rightarrow> True)))"

section \<open>Attribute filter\<close>

definition isAllowedAttr :: "string \<Rightarrow> string \<Rightarrow> error + bool" where
  "isAllowedAttr tag name =
     (let n = toLowerCase name
      in if startsWith n ''on'' then Inr False
         else if n = ''style'' then Inr False
         else if n \<in> GLOBAL_ATTRS then Inr True
         else
           (case TAG_ATTRS tag of
              OwnSet allowed \<Rightarrow> Inr (n \<in> allowed)
            | Undefined \<Rightarrow> Inr (n \<in> {})
            | Inherited \<Rightarrow> Inl TypeError))"



section \<open>The document object model\<close>

text \<open>
  The sanitizer works on the node trees of a document through the DOM interface. A node
  has an identity (the number it carries). An element has what never changes during a
  walk, its kind, its \<^verbatim>\<open>tagName\<close> and its \<^emph>\<open>is\<close> value (the value of the
  \<^verbatim>\<open>is\<close> attribute it was created with, if any), then its attribute list in document
  order and its children. An element is an \<open>HTMLElement\<close> when it is in the HTML
  namespace and its document is an HTML document, and a \<open>ForeignElement\<close> otherwise (an
  SVG or MathML element, or any element of an XML document). The state of the DOM is the
  list of its node trees: the document's tree and every tree that has been detached from
  it. A node's parent is the element that has it among its children; the root of a tree
  has none.
\<close>

type_synonym attrs = "(string \<times> string) list"

datatype chardata = TextData string | CommentData string

datatype kind = HTMLElement | ForeignElement

datatype einfo = Einfo (kindOf: kind) (tagNameOf: string) (isValueOf: "string option")

datatype node = Leaf nat chardata | Element nat einfo attrs "node list"

type_synonym dom = "node list"

abbreviation tagOf :: "einfo \<Rightarrow> string" where
  \<comment> \<open>\<^verbatim>\<open>el.tagName.toLowerCase()\<close>\<close>
  "tagOf e \<equiv> toLowerCase (tagNameOf e)"

abbreviation htmlElement :: "string \<Rightarrow> einfo" where
  "htmlElement t \<equiv> Einfo HTMLElement t None"

abbreviation foreignElement :: "string \<Rightarrow> einfo" where
  "foreignElement t \<equiv> Einfo ForeignElement t None"

fun nodeId :: "node \<Rightarrow> nat" where
  "nodeId (Leaf i d) = i"
| "nodeId (Element i t a cs) = i"

fun idsl :: "node list \<Rightarrow> nat list" where
  \<comment> \<open>every node of a forest, in document order\<close>
  "idsl [] = []"
| "idsl (Leaf i d # ns) = i # idsl ns"
| "idsl (Element i t a cs # ns) = i # idsl cs @ idsl ns"

fun elemsl :: "node list \<Rightarrow> nat list" where
  \<comment> \<open>every element of a forest, in document order\<close>
  "elemsl [] = []"
| "elemsl (Leaf i d # ns) = elemsl ns"
| "elemsl (Element i t a cs # ns) = i # elemsl cs @ elemsl ns"

fun findNode :: "nat \<Rightarrow> node list \<Rightarrow> node option" where
  "findNode i [] = None"
| "findNode i (Leaf j d # ns) = (if i = j then Some (Leaf j d) else findNode i ns)"
| "findNode i (Element j t a cs # ns) =
     (if i = j then Some (Element j t a cs)
      else (case findNode i cs of Some n \<Rightarrow> Some n | None \<Rightarrow> findNode i ns))"

fun parentOf :: "nat \<Rightarrow> node list \<Rightarrow> nat option" where
  "parentOf i [] = None"
| "parentOf i (Leaf j d # ns) = parentOf i ns"
| "parentOf i (Element j t a cs # ns) =
     (if i \<in> set (map nodeId cs) then Some j
      else (case parentOf i cs of Some p \<Rightarrow> Some p | None \<Rightarrow> parentOf i ns))"

fun modify :: "nat \<Rightarrow> (node \<Rightarrow> node list) \<Rightarrow> node list \<Rightarrow> node list" where
  \<comment> \<open>put \<open>f n\<close> in the place of the node \<open>n\<close> whose identity is \<open>i\<close>\<close>
  "modify i f [] = []"
| "modify i f (Leaf j d # ns) = (if j = i then f (Leaf j d) else [Leaf j d]) @ modify i f ns"
| "modify i f (Element j t a cs # ns) =
     (if j = i then f (Element j t a cs) else [Element j t a (modify i f cs)]) @ modify i f ns"

subsection \<open>Attributes of an element\<close>

text \<open>
  \<^verbatim>\<open>getAttribute\<close>, \<^verbatim>\<open>setAttribute\<close> and \<^verbatim>\<open>removeAttribute\<close> take a qualified name.
  On an \<open>HTMLElement\<close> they first convert it to ASCII lowercase, on any other element
  they take it as it is; then they work on the first attribute of the list that has that
  qualified name. \<^verbatim>\<open>setAttribute\<close> changes the value of that attribute, or appends a new
  attribute when there is none.
\<close>

definition qualifiedName :: "einfo \<Rightarrow> string \<Rightarrow> string" where
  "qualifiedName e name = (if kindOf e = HTMLElement then asciiLowerCase name else name)"

fun removeAttr :: "string \<Rightarrow> attrs \<Rightarrow> attrs" where
  "removeAttr qn [] = []"
| "removeAttr qn ((n, v) # as) = (if n = qn then as else (n, v) # removeAttr qn as)"

fun setAttr :: "string \<Rightarrow> string \<Rightarrow> attrs \<Rightarrow> attrs" where
  "setAttr qn v [] = [(qn, v)]"
| "setAttr qn v ((n, w) # as) = (if n = qn then (n, v) # as else (n, w) # setAttr qn v as)"

fun withAttrs :: "(einfo \<Rightarrow> attrs \<Rightarrow> attrs) \<Rightarrow> node \<Rightarrow> node list" where
  "withAttrs g (Leaf i d) = [Leaf i d]"
| "withAttrs g (Element i t a cs) = [Element i t (g t a) cs]"

definition tagName :: "dom \<Rightarrow> nat \<Rightarrow> error + string" where
  "tagName st el =
     (case findNode el st of Some (Element i t a cs) \<Rightarrow> Inr (tagNameOf t) | _ \<Rightarrow> Inl TypeError)"

definition attributes :: "dom \<Rightarrow> nat \<Rightarrow> attrs" where
  "attributes st el = (case findNode el st of Some (Element i t a cs) \<Rightarrow> a | _ \<Rightarrow> [])"

definition getAttribute :: "dom \<Rightarrow> nat \<Rightarrow> string \<Rightarrow> string option" where
  "getAttribute st el name =
     (case findNode el st of
        Some (Element i t a cs) \<Rightarrow> map_of a (qualifiedName t name)
      | _ \<Rightarrow> None)"

definition removeAttribute :: "dom \<Rightarrow> nat \<Rightarrow> string \<Rightarrow> dom" where
  "removeAttribute st el name = modify el (withAttrs (\<lambda>t. removeAttr (qualifiedName t name))) st"

definition setAttribute :: "dom \<Rightarrow> nat \<Rightarrow> string \<Rightarrow> string \<Rightarrow> dom" where
  "setAttribute st el name v = modify el (withAttrs (\<lambda>t. setAttr (qualifiedName t name) v)) st"

subsection \<open>Tree structure\<close>

definition childNodes :: "dom \<Rightarrow> nat \<Rightarrow> node list option" where
  "childNodes st el =
     (case findNode el st of Some (Element i t a cs) \<Rightarrow> Some cs | _ \<Rightarrow> None)"

definition parentNode :: "dom \<Rightarrow> nat \<Rightarrow> nat option" where
  "parentNode st el = parentOf el st"

definition firstChild :: "dom \<Rightarrow> nat \<Rightarrow> nat option" where
  "firstChild st el =
     (case childNodes st el of Some (c # cs) \<Rightarrow> Some (nodeId c) | _ \<Rightarrow> None)"

definition remove :: "dom \<Rightarrow> nat \<Rightarrow> dom" where
  \<comment> \<open>\<^verbatim>\<open>el.remove()\<close>: nothing for a node without parent; else the node leaves its
      parent's children and is the root of a tree of its own\<close>
  "remove st el =
     (case parentNode st el of
        None \<Rightarrow> st
      | Some p \<Rightarrow>
          (case findNode el st of
             None \<Rightarrow> st
           | Some n \<Rightarrow> modify el (\<lambda>_. []) st @ [n]))"

definition insertBefore :: "dom \<Rightarrow> nat \<Rightarrow> nat \<Rightarrow> nat \<Rightarrow> error + dom" where
  \<comment> \<open>\<^verbatim>\<open>parent.insertBefore(node, child)\<close>: the DOM refuses a node that contains the
      parent and a reference child that is not a child of the parent; else the node
      leaves the place it had and stands before the reference child\<close>
  "insertBefore st parent node child =
     (case (childNodes st parent, findNode node st) of
        (Some cs, Some n) \<Rightarrow>
          if parent \<in> set (idsl [n]) then Inl HierarchyRequestError
          else if parentNode st child \<noteq> Some parent then Inl NotFoundError
          else if child = node then Inr st
          else Inr (modify child (\<lambda>r. [n, r]) (modify node (\<lambda>_. []) st))
      | _ \<Rightarrow> Inl TypeError)"

definition querySelectorAll :: "dom \<Rightarrow> nat \<Rightarrow> error + nat list" where
  \<comment> \<open>\<^verbatim>\<open>root.querySelectorAll("*")\<close>: the element descendants of the root, in document
      order, as a static list\<close>
  "querySelectorAll st root =
     (case childNodes st root of Some cs \<Rightarrow> Inr (elemsl cs) | None \<Rightarrow> Inl TypeError)"

section \<open>Link hardener\<close>

definition ensureSafeLinkAttrs :: "dom \<Rightarrow> nat \<Rightarrow> error + dom" where
  "ensureSafeLinkAttrs st el =
     (case tagName st el of
        Inl e \<Rightarrow> Inl e
      | Inr tn \<Rightarrow>
          (let tag = toLowerCase tn
           in if tag = ''a'' \<and> getAttribute st el ''target'' = Some ''_blank''
              then
                (let rel = toLowerCase
                             (case getAttribute st el ''rel'' of
                                None \<Rightarrow> [] | Some v \<Rightarrow> if v = [] then [] else v);
                     needed = newSet [''noopener'', ''noreferrer''];
                     parts = newSet (filter (\<lambda>s. s \<noteq> []) (splitWs rel));
                     parts' = fold setAdd needed parts
                 in Inr (setAttribute st el ''rel'' (join '' '' parts')))
              else Inr st))"

section \<open>Element classifier\<close>

partial_function (option) unwrapLoop :: "dom \<Rightarrow> nat \<Rightarrow> nat \<Rightarrow> (error + dom) option" where
  \<comment> \<open>\<^verbatim>\<open>while (el.firstChild) parent.insertBefore(el.firstChild, el)\<close>\<close>
  "unwrapLoop st parent el =
     (case firstChild st el of
        None \<Rightarrow> Some (Inr st)
      | Some c \<Rightarrow>
          (case insertBefore st parent c el of
             Inl e \<Rightarrow> Some (Inl e)
           | Inr st' \<Rightarrow> unwrapLoop st' parent el))"

declare unwrapLoop.simps [code]

definition unwrapElement :: "dom \<Rightarrow> nat \<Rightarrow> (error + dom) option" where
  "unwrapElement st el =
     (case parentNode st el of
        None \<Rightarrow> Some (Inr (remove st el))
      | Some parent \<Rightarrow>
          (case unwrapLoop st parent el of
             Some (Inr st') \<Rightarrow> Some (Inr (remove st' el))
           | r \<Rightarrow> r))"

fun attrLoop :: "string \<Rightarrow> nat \<Rightarrow> attrs \<Rightarrow> dom \<Rightarrow> error + dom" where
  \<comment> \<open>the loop over \<^verbatim>\<open>Array.from(el.attributes)\<close>\<close>
  "attrLoop tag el [] st = Inr st"
| "attrLoop tag el ((aname, val) # rest) st =
     (let name = toLowerCase aname
      in case isAllowedAttr tag name of
           Inl e \<Rightarrow> Inl e
         | Inr allowed \<Rightarrow>
             if \<not> allowed then attrLoop tag el rest (removeAttribute st el aname)
             else if (name = ''href'' \<or> name = ''src'') \<and> \<not> isSafeUrl (Some val)
             then attrLoop tag el rest (removeAttribute st el aname)
             else attrLoop tag el rest st)"

definition sanitizeElement :: "dom \<Rightarrow> nat \<Rightarrow> (error + dom) option" where
  "sanitizeElement st el =
     (case tagName st el of
        Inl e \<Rightarrow> Some (Inl e)
      | Inr tn \<Rightarrow>
          (let tag = toLowerCase tn
           in if tag \<in> ALWAYS_DROP then Some (Inr (remove st el))
              else if tag \<notin> SAFE_ELEMENTS then unwrapElement st el
              else
                (case attrLoop tag el (attributes st el) st of
                   Inl e \<Rightarrow> Some (Inl e)
                 | Inr st' \<Rightarrow> Some (ensureSafeLinkAttrs st' el))))"

section \<open>Tree walker\<close>

fun forEachNode :: "nat list \<Rightarrow> dom \<Rightarrow> (error + dom) option" where
  \<comment> \<open>\<^verbatim>\<open>for (const node of nodes) sanitizeElement(node)\<close>\<close>
  "forEachNode [] st = Some (Inr st)"
| "forEachNode (n # ns) st =
     (case sanitizeElement st n of
        Some (Inr st') \<Rightarrow> forEachNode ns st'
      | r \<Rightarrow> r)"

definition walkAndSanitize :: "dom \<Rightarrow> nat \<Rightarrow> (error + dom) option" where
  "walkAndSanitize st root =
     (case querySelectorAll st root of
        Inl e \<Rightarrow> Some (Inl e)
      | Inr nodes \<Rightarrow> forEachNode nodes st)"

section \<open>Sanitize entry point\<close>

text \<open>
  The parser and the serializer are collaborators. A document has its node trees and its
  body; where it has no body (\<^verbatim>\<open>doc.body\<close> is \<^verbatim>\<open>null\<close>) the number it gives is the
  identity of no element. A document builder returns a document, or nothing (\<^verbatim>\<open>null\<close>
  or \<^verbatim>\<open>undefined\<close>, which a \<^verbatim>\<open>createDocument\<close> function can return).
  \<^verbatim>\<open>innerHTML\<close> serializes the children of a node: it sees of every element its kind,
  its tag name, its \<^emph>\<open>is\<close> value, its attributes and its children, and of no node the
  identity.
\<close>

record document =
  trees :: dom
  body :: nat

datatype markup = MLeaf chardata | MElement einfo attrs "markup list"

fun content :: "node list \<Rightarrow> markup list" where
  "content [] = []"
| "content (Leaf i d # ns) = MLeaf d # content ns"
| "content (Element i t a cs # ns) = MElement t a (content cs) # content ns"

type_synonym serializer = "markup list \<Rightarrow> string"

definition innerHTML :: "serializer \<Rightarrow> dom \<Rightarrow> nat \<Rightarrow> error + string" where
  "innerHTML ser st el =
     (case childNodes st el of Some cs \<Rightarrow> Inr (ser (content cs)) | None \<Rightarrow> Inl TypeError)"

text \<open>
  The value of a property that may hold a function, and the second argument of the entry
  point: \<^verbatim>\<open>null\<close>, or a value with its \<^verbatim>\<open>createDocument\<close> property (the default \<^verbatim>\<open>{}\<close>
  stands for \<^verbatim>\<open>undefined\<close> and has none).
\<close>

datatype 'a jsvalue = Absent | NotAFunction | Function 'a

type_synonym builder = "string \<Rightarrow> document option"

datatype options = NullOptions | Options "builder jsvalue"

definition sanitize ::
  "serializer \<Rightarrow> builder option \<Rightarrow> string option \<Rightarrow> options \<Rightarrow> (error + string) option" where
  \<comment> \<open>\<open>domParser\<close> is \<^verbatim>\<open>window.DOMParser\<close> where the environment has one;
      \<open>html = None\<close> is \<^verbatim>\<open>null\<close> or \<^verbatim>\<open>undefined\<close>; reading \<^verbatim>\<open>options.createDocument\<close>
      of \<^verbatim>\<open>null\<close> throws a \<^verbatim>\<open>TypeError\<close>, and so does reading \<^verbatim>\<open>body\<close> of
      \<^verbatim>\<open>null\<close> or \<^verbatim>\<open>undefined\<close>\<close>
  "sanitize ser domParser html opts =
     (case html of
        None \<Rightarrow> Some (Inr [])
      | Some h \<Rightarrow>
          (case opts of
             NullOptions \<Rightarrow> Some (Inl TypeError)
           | Options createDocument \<Rightarrow>
               (case (case createDocument of
                        Function f \<Rightarrow> Inr (f h)
                      | _ \<Rightarrow> (case domParser of Some f \<Rightarrow> Inr (f h) | None \<Rightarrow> Inl NoDomAvailable)) of
                  Inl e \<Rightarrow> Some (Inl e)
                | Inr None \<Rightarrow> Some (Inl TypeError)
                | Inr (Some doc) \<Rightarrow>
                    (case walkAndSanitize (trees doc) (body doc) of
                       Some (Inr st') \<Rightarrow> Some (innerHTML ser st' (body doc))
                     | Some (Inl e) \<Rightarrow> Some (Inl e)
                     | None \<Rightarrow> None))))"

section \<open>Notions used to state and prove the properties\<close>

fun withChildren :: "node list \<Rightarrow> node \<Rightarrow> node list" where
  "withChildren cs (Leaf i d) = [Leaf i d]"
| "withChildren cs (Element i t a xs) = [Element i t a cs]"

definition setChildren :: "nat \<Rightarrow> node list \<Rightarrow> node list \<Rightarrow> node list" where
  \<comment> \<open>the state in which the element \<open>p\<close> has the children \<open>cs\<close>\<close>
  "setChildren p cs st = modify p (withChildren cs) st"

fun subnodes :: "node list \<Rightarrow> node list" where
  \<comment> \<open>every node of a forest with its subtree, in document order\<close>
  "subnodes [] = []"
| "subnodes (Leaf i d # ns) = Leaf i d # subnodes ns"
| "subnodes (Element i t a cs # ns) = Element i t a cs # subnodes cs @ subnodes ns"

definition idpres :: "(node \<Rightarrow> node list) \<Rightarrow> bool" where
  "idpres f \<longleftrightarrow> (\<forall>n. \<exists>m. f n = [m] \<and> nodeId m = nodeId n)"


text \<open>
  What the classifier does to the attribute list of a kept element: the loop decides from
  each entry of the snapshot whether it removes, from the current list, the first
  attribute with the qualified name that \<^verbatim>\<open>removeAttribute\<close> makes of the entry's name;
  the hardener then writes \<^verbatim>\<open>rel\<close>.
\<close>

definition keepsAttr :: "string \<Rightarrow> string \<times> string \<Rightarrow> bool" where
  "keepsAttr tag av \<longleftrightarrow>
     (let name = toLowerCase (fst av)
      in isAllowedAttr tag name = Inr True \<and>
         \<not> ((name = ''href'' \<or> name = ''src'') \<and> \<not> isSafeUrl (Some (snd av))))"

fun attrFold :: "string \<Rightarrow> einfo \<Rightarrow> attrs \<Rightarrow> attrs \<Rightarrow> attrs" where
  "attrFold tag e [] cur = cur"
| "attrFold tag e (av # rest) cur =
     attrFold tag e rest
       (if keepsAttr tag av then cur else removeAttr (qualifiedName e (fst av)) cur)"

definition relTokens :: "string option \<Rightarrow> string list" where
  "relTokens r =
     fold setAdd (newSet [''noopener'', ''noreferrer''])
       (newSet (filter (\<lambda>s. s \<noteq> [])
          (splitWs (toLowerCase (case r of None \<Rightarrow> [] | Some v \<Rightarrow> v)))))"

definition hardenAttrs :: "string \<Rightarrow> attrs \<Rightarrow> attrs" where
  "hardenAttrs tag a =
     (if tag = ''a'' \<and> map_of a ''target'' = Some ''_blank''
      then setAttr ''rel'' (join '' '' (relTokens (map_of a ''rel''))) a else a)"

definition cleanAttrs :: "einfo \<Rightarrow> attrs \<Rightarrow> attrs" where
  "cleanAttrs e a = hardenAttrs (tagOf e) (attrFold (tagOf e) e a a)"

text \<open>
  The three rules of the classifier (section 4.5 of the specification) applied to a list
  of sibling nodes and, in turn, to what they leave: an always-dropped element goes with
  its subtree, the children of an element that is not safe stand in its place, a safe
  element stays with its filtered and hardened attributes. The walk is proved below to
  leave exactly this in the place of the children of its root.
\<close>

fun clean :: "node list \<Rightarrow> node list" where
  "clean [] = []"
| "clean (Leaf i d # ns) = Leaf i d # clean ns"
| "clean (Element i t a cs # ns) =
     (if tagOf t \<in> ALWAYS_DROP then clean ns
      else if tagOf t \<notin> SAFE_ELEMENTS then clean cs @ clean ns
      else Element i t (cleanAttrs t a) (clean cs) # clean ns)"

text \<open>
  A property of every element of a forest that the walk keeps: the elements with a safe
  tag that are inside no always-dropped element.
\<close>

fun keptAll :: "(einfo \<Rightarrow> attrs \<Rightarrow> bool) \<Rightarrow> node list \<Rightarrow> bool" where
  "keptAll P [] = True"
| "keptAll P (Leaf i d # ns) = keptAll P ns"
| "keptAll P (Element i t a cs # ns) =
     (if tagOf t \<in> ALWAYS_DROP then keptAll P ns
      else if tagOf t \<notin> SAFE_ELEMENTS then keptAll P cs \<and> keptAll P ns
      else P t a \<and> keptAll P cs \<and> keptAll P ns)"

text \<open>
  The data model of the specification, as an HTML parser builds it: the attributes of an
  element are a mapping (no two have the same qualified name), and the parser has
  converted the names on an HTML element to ASCII lowercase. The names of a foreign
  element may have capitals (\<^verbatim>\<open>viewBox\<close>).
\<close>

definition distinctNames :: "einfo \<Rightarrow> attrs \<Rightarrow> bool" where
  "distinctNames e a \<longleftrightarrow> distinct (map fst a)"

definition wfAttrs :: "einfo \<Rightarrow> attrs \<Rightarrow> bool" where
  "wfAttrs e a \<longleftrightarrow>
     distinct (map fst a) \<and>
     (kindOf e = HTMLElement \<longrightarrow> list_all (\<lambda>av. asciiLowerCase (fst av) = fst av) a)"

text \<open>
  The attribute-name decision as section 4.3 of the specification words it, over the
  table \<open>TagAttributes\<close> of section 3 (a set of names for every tag).
\<close>

definition TagAttributes :: "string \<Rightarrow> string set" where
  "TagAttributes tag =
     (if tag = ''a'' then {''href'', ''target'', ''rel''}
      else if tag = ''img'' then {''src'', ''alt'', ''width'', ''height''}
      else {})"

definition isAllowedAttribute_spec :: "string \<Rightarrow> string \<Rightarrow> bool" where
  "isAllowedAttribute_spec tag name =
     (let n = toLowerCase name
      in if startsWith n ''on'' \<or> n = ''style'' then False
         else if n \<in> GLOBAL_ATTRS then True
         else n \<in> TagAttributes tag)"

text \<open>
  What the specification promises of every element and attribute that remains. Names are
  compared in lowercase, as everywhere in the specification.
\<close>

definition attrPermitted :: "string \<Rightarrow> string \<times> string \<Rightarrow> bool" where
  "attrPermitted tag av \<longleftrightarrow>
     isAllowedAttribute_spec tag (fst av) \<and>
     \<not> startsWith (toLowerCase (fst av)) ''on'' \<and> toLowerCase (fst av) \<noteq> ''style'' \<and>
     (toLowerCase (fst av) = ''href'' \<or> toLowerCase (fst av) = ''src''
        \<longrightarrow> isSafeUrl (Some (snd av)))"

fun tagPermitted :: "node \<Rightarrow> bool" where
  "tagPermitted (Leaf i d) = True"
| "tagPermitted (Element i t a cs) = (tagOf t \<in> SAFE_ELEMENTS)"

fun nodePermitted :: "node \<Rightarrow> bool" where
  "nodePermitted (Leaf i d) = True"
| "nodePermitted (Element i t a cs) =
     (tagOf t \<in> SAFE_ELEMENTS \<and> list_all (attrPermitted (tagOf t)) a)"

text \<open>
  What a node is apart from its identity, attributes and children; the always-dropped and
  the unwrapped elements; the nodes of a forest that are inside an always-dropped element
  of it (the element itself included).
\<close>

fun label :: "node \<Rightarrow> chardata + einfo" where
  "label (Leaf i d) = Inl d"
| "label (Element i t a cs) = Inr t"

fun alwaysDropped :: "node \<Rightarrow> bool" where
  "alwaysDropped (Leaf i d) = False"
| "alwaysDropped (Element i t a cs) = (tagOf t \<in> ALWAYS_DROP)"

fun unwrapped :: "node \<Rightarrow> bool" where
  "unwrapped (Leaf i d) = False"
| "unwrapped (Element i t a cs) = (tagOf t \<notin> SAFE_ELEMENTS \<and> tagOf t \<notin> ALWAYS_DROP)"

definition inDroppedSubtree :: "node list \<Rightarrow> nat \<Rightarrow> bool" where
  "inDroppedSubtree ks k \<longleftrightarrow> list_ex (\<lambda>d. alwaysDropped d \<and> k \<in> set (idsl [d])) (subnodes ks)"

text \<open>A document for the examples: the trees of the state and the children of its body.\<close>

definition exampleAttrs :: attrs where
  "exampleAttrs =
     [(''href'', ''java script:alert(1)''), (''target'', ''_blank''), (''rel'', ''NoFollow  x'')]"

definition exampleBody :: "node list" where
  "exampleBody =
     [Element 3 (htmlElement ''P'')
        [(''style'', ''color:red''), (''title'', ''ok''), (''onclick'', ''e()'')]
        [Leaf 4 (TextData ''hi''),
         Element 5 (foreignElement ''svg'') [(''viewBox'', ''0 0 1 1''), (''onload'', ''x()'')]
           [Element 6 (foreignElement ''a'') [(''viewBox'', ''0''), (''href'', ''javascript:x()'')]
              [Leaf 13 (TextData ''t'')]]],
      Element 7 (htmlElement ''CUSTOM'') []
        [Leaf 8 (TextData ''hello''),
         Element 9 (htmlElement ''B'') [] [Leaf 10 (TextData ''world'')]],
      Element 11 (htmlElement ''A'') exampleAttrs [Leaf 12 (TextData ''x'')]]"

definition htmlDocument :: "node list \<Rightarrow> document" where
  "htmlDocument ks =
     \<lparr>trees = [Element 0 (htmlElement ''HTML'') []
                 [Element 1 (htmlElement ''HEAD'') [] [], Element 2 (htmlElement ''BODY'') [] ks]],
      body = 2\<rparr>"

definition exampleTrees :: dom where
  "exampleTrees = trees (htmlDocument exampleBody)"

text \<open>
  The link hardener as section 4.4 of the specification words it: the tokens of the
  current \<^verbatim>\<open>rel\<close> value, then the missing ones of the two required tokens.
\<close>

definition relTokens_spec :: "string option \<Rightarrow> string list" where
  "relTokens_spec r =
     (let tokens = newSet (filter (\<lambda>s. s \<noteq> []) (splitWs (case r of None \<Rightarrow> [] | Some v \<Rightarrow> v)))
      in tokens @ filter (\<lambda>t. t \<notin> set tokens) [''noopener'', ''noreferrer''])"

definition ensureSafeLinkAttrs_spec :: "dom \<Rightarrow> nat \<Rightarrow> dom" where
  "ensureSafeLinkAttrs_spec st el =
     (if map_sum id toLowerCase (tagName st el) = Inr ''a'' \<and>
         getAttribute st el ''target'' = Some ''_blank''
      then setAttribute st el ''rel'' (join '' '' (relTokens_spec (getAttribute st el ''rel'')))
      else st)"

definition exampleLink :: dom where
  "exampleLink =
     [Element 1 (htmlElement ''A'') [(''target'', ''_blank''), (''rel'', ''NoFollow'')] []]"

text \<open>A token of a \<^verbatim>\<open>rel\<close> value: not empty, no white space.\<close>

definition token :: "string \<Rightarrow> bool" where
  "token t \<longleftrightarrow> t \<noteq> [] \<and> (\<forall>c \<in> set t. \<not> isWhiteSpace c)"

definition exampleAfterDrop :: "node list" where
  \<comment> \<open>the children of the body of \<open>exampleTrees\<close> once the \<^verbatim>\<open>svg\<close> element is removed\<close>
  "exampleAfterDrop =
     [Element 3 (htmlElement ''P'')
        [(''style'', ''color:red''), (''title'', ''ok''), (''onclick'', ''e()'')]
        [Leaf 4 (TextData ''hi'')],
      Element 7 (htmlElement ''CUSTOM'') []
        [Leaf 8 (TextData ''hello''),
         Element 9 (htmlElement ''B'') [] [Leaf 10 (TextData ''world'')]],
      Element 11 (htmlElement ''A'') exampleAttrs [Leaf 12 (TextData ''x'')]]"

text \<open>
  Documents that no HTML parser builds but a \<^verbatim>\<open>createDocument\<close> function can return
  (\<^verbatim>\<open>setAttributeNS\<close> appends an attribute under the qualified name it is given, capitals
  included, and beside an attribute of another namespace with the same qualified name):
  an anchor with two attributes named \<^verbatim>\<open>href\<close>, and a paragraph with an attribute named
  \<^verbatim>\<open>ONCLICK\<close>. And a document an HTML parser does build: an unknown element with a
  \<^verbatim>\<open>script\<close> element and another unknown element inside.
\<close>

definition exampleDuplicate :: "node list" where
  "exampleDuplicate =
     [Element 3 (htmlElement ''A'') [(''href'', ''/ok''), (''href'', ''javascript:alert(1)'')]
        [Leaf 4 (TextData ''t'')]]"

definition exampleUpper :: "node list" where
  "exampleUpper =
     [Element 3 (htmlElement ''P'') [(''ONCLICK'', ''e()'')] [Leaf 4 (TextData ''x'')]]"

definition exampleNested :: "node list" where
  "exampleNested =
     [Element 3 (htmlElement ''CUSTOM'') []
        [Leaf 4 (TextData ''hi''),
         Element 5 (htmlElement ''SCRIPT'') [] [Leaf 6 (TextData ''s'')],
         Element 7 (htmlElement ''OTHER'') [] [Leaf 8 (TextData ''y'')]]]"

text \<open>The builder the entry point calls: \<^verbatim>\<open>options.createDocument\<close> where it is a
  function, else the ambient \<^verbatim>\<open>DOMParser\<close> where there is one.\<close>

definition usesBuilder :: "builder option \<Rightarrow> builder jsvalue \<Rightarrow> builder \<Rightarrow> bool" where
  "usesBuilder domParser createDocument f \<longleftrightarrow>
     createDocument = Function f \<or>
     ((case createDocument of Function g \<Rightarrow> False | _ \<Rightarrow> True) \<and> domParser = Some f)"

text \<open>
  A serializer for the examples, after the fragment serialization of the HTML Standard:
  text and attribute values escaped, no end tag and no content for a void element, and
  the text of a \<^verbatim>\<open>script\<close> or \<^verbatim>\<open>style\<close> element and the like as it is, and the
  \<^emph>\<open>is\<close> value of an element written as an \<^verbatim>\<open>is\<close> attribute where the element has
  no attribute of that name.
\<close>

definition VOID_ELEMENTS :: "string set" where
  "VOID_ELEMENTS =
     {''area'', ''base'', ''br'', ''col'', ''embed'', ''hr'', ''img'', ''input'', ''link'',
      ''meta'', ''source'', ''track'', ''wbr''}"

definition escapeText :: "string \<Rightarrow> string" where
  "escapeText s =
     concat (map (\<lambda>c. if c = CHR ''&'' then ''&amp;'' else if c = CHR ''<'' then ''&lt;''
                       else if c = CHR ''>'' then ''&gt;'' else if c = CHR 0xA0 then ''&nbsp;''
                       else [c]) s)"

definition escapeAttr :: "string \<Rightarrow> string" where
  "escapeAttr s =
     concat (map (\<lambda>c. if c = CHR ''&'' then ''&amp;'' else if c = CHR 0x22 then ''&quot;''
                       else if c = CHR 0xA0 then ''&nbsp;'' else [c]) s)"

definition quoted :: "string \<Rightarrow> string" where
  \<comment> \<open>an attribute value between double quotes\<close>
  "quoted v = [CHR 0x22] @ escapeAttr v @ [CHR 0x22]"

definition serializeAttrs :: "attrs \<Rightarrow> string" where
  "serializeAttrs a = concat (map (\<lambda>av. '' '' @ fst av @ ''='' @ quoted (snd av)) a)"

definition serializeIs :: "einfo \<Rightarrow> attrs \<Rightarrow> string" where
  "serializeIs e a =
     (case isValueOf e of
        Some v \<Rightarrow> if ''is'' \<in> fst ` set a then [] else '' is='' @ quoted v
      | None \<Rightarrow> [])"

definition serializedName :: "einfo \<Rightarrow> string" where
  \<comment> \<open>the qualified name: the \<^verbatim>\<open>tagName\<close> of an HTML element is its ASCII uppercase form\<close>
  "serializedName e =
     (if kindOf e = HTMLElement then asciiLowerCase (tagNameOf e) else tagNameOf e)"

definition rawText :: "einfo \<Rightarrow> bool" where
  \<comment> \<open>the elements whose text children are written as they are\<close>
  "rawText e \<longleftrightarrow>
     kindOf e = HTMLElement \<and>
     serializedName e \<in> {''style'', ''script'', ''xmp'', ''iframe'', ''noembed'', ''noframes'',
                            ''plaintext''}"

fun serialize :: "bool \<Rightarrow> markup list \<Rightarrow> string" where
  \<comment> \<open>the children of a node; \<open>raw\<close> where the node is a raw text element\<close>
  "serialize raw [] = []"
| "serialize raw (MLeaf (TextData s) # ms) = (if raw then s else escapeText s) @ serialize raw ms"
| "serialize raw (MLeaf (CommentData s) # ms) = ''<!--'' @ s @ ''-->'' @ serialize raw ms"
| "serialize raw (MElement e a cs # ms) =
     ''<'' @ serializedName e @ serializeIs e a @ serializeAttrs a @ ''>'' @
     (if serializedName e \<in> VOID_ELEMENTS then []
      else serialize (rawText e) cs @ ''</'' @ serializedName e @ ''>'') @
     serialize raw ms"

definition htmlSerializer :: serializer where
  "htmlSerializer m = serialize False m"

text \<open>
  A builder for the examples. It is a table: on each input it lists it returns the
  document that the tree construction of the HTML Standard builds for that input (for
  the first one: a \<^verbatim>\<open>button\<close> is a scope boundary for the rule that a \<^verbatim>\<open>p\<close> start tag
  closes an open \<^verbatim>\<open>p\<close>, so the inner \<^verbatim>\<open>p\<close> nests; for the second and third: without
  that boundary the inner \<^verbatim>\<open>p\<close> closes the outer one, and the stray end tag makes an
  empty \<^verbatim>\<open>p\<close>; an element created from a start tag with an \<^verbatim>\<open>is\<close> attribute has that
  value as its \<^emph>\<open>is\<close> value). On any other input it returns an empty body.
\<close>

definition exampleIs :: "node list" where
  "exampleIs =
     [Element 3 (Einfo HTMLElement ''A'' (Some ''x'')) [(''is'', ''x''), (''href'', ''/d'')]
        [Leaf 4 (TextData ''t'')]]"

definition tableBuilder :: builder where
  "tableBuilder h =
     Some (htmlDocument
       (if h = ''<p><button><p>x</p></button></p>''
        then [Element 3 (htmlElement ''P'') []
                [Element 4 (htmlElement ''BUTTON'') []
                   [Element 5 (htmlElement ''P'') [] [Leaf 6 (TextData ''x'')]]]]
        else if h = ''<p><p>x</p></p>'' \<or> h = ''<p></p><p>x</p><p></p>''
        then [Element 3 (htmlElement ''P'') [] [],
              Element 4 (htmlElement ''P'') [] [Leaf 5 (TextData ''x'')],
              Element 6 (htmlElement ''P'') [] []]
        else if h = ''<p>hi<script>alert(1)</script></p>''
        then [Element 3 (htmlElement ''P'') []
                [Leaf 4 (TextData ''hi''),
                 Element 5 (htmlElement ''SCRIPT'') [] [Leaf 6 (TextData ''alert(1)'')]]]
        else if h = ''<custom>hello<b>world</b></custom>''
        then [Element 3 (htmlElement ''CUSTOM'') []
                [Leaf 4 (TextData ''hello''),
                 Element 5 (htmlElement ''B'') [] [Leaf 6 (TextData ''world'')]]]
        else if h = ''<p>a<script>s</script>b</p>''
        then [Element 3 (htmlElement ''P'') []
                [Leaf 4 (TextData ''a''),
                 Element 5 (htmlElement ''SCRIPT'') [] [Leaf 6 (TextData ''s'')],
                 Leaf 7 (TextData ''b'')]]
        else if h = ''<p>ab</p>''
        then [Element 3 (htmlElement ''P'') [] [Leaf 4 (TextData ''ab'')]]
        else if h = ''<a is=x href=/d>t</a>'' \<or>
                h = ''<a is='' @ quoted ''x'' @ '' href='' @ quoted ''/d'' @ ''>t</a>''
        then exampleIs
        else if h = ''<svg viewBox=0><a href=//x>t</a></svg><p>ok</p>''
        then [Element 3 (foreignElement ''svg'') [(''viewBox'', ''0'')]
                [Element 4 (foreignElement ''a'') [(''href'', ''//x'')] [Leaf 5 (TextData ''t'')]],
              Element 6 (htmlElement ''P'') [] [Leaf 7 (TextData ''ok'')]]
        else []))"

text \<open>
  A \<^verbatim>\<open>createDocument\<close> function that is not a parser: it returns the two documents
  above that no parser builds, reads the output for the first of them back as a parser
  does, returns nothing for the empty string, and returns a document without body for
  every other input (as a function does that parses its input as XML).
\<close>

definition factoryBuilder :: builder where
  "factoryBuilder h =
     (if h = ''<a href=/ok>t</a>'' then Some (htmlDocument exampleDuplicate)
      else if h = ''<a href='' @ quoted ''javascript:alert(1)'' @ ''>t</a>''
      then Some (htmlDocument
             [Element 3 (htmlElement ''A'') [(''href'', ''javascript:alert(1)'')]
                [Leaf 4 (TextData ''t'')]])
      else if h = ''<p>x</p>'' then Some (htmlDocument exampleUpper)
      else if h = [] then None
      else Some \<lparr>trees = [Element 0 (foreignElement ''root'') [] []], body = 2\<rparr>)"

text \<open>The content of the children of a node, and of the body of a document once it is walked.\<close>

definition bodyContent :: "dom \<Rightarrow> nat \<Rightarrow> markup list option" where
  "bodyContent st r = map_option content (childNodes st r)"

definition sanitizedContent :: "document \<Rightarrow> markup list option" where
  "sanitizedContent doc =
     (case walkAndSanitize (trees doc) (body doc) of
        Some (Inr st') \<Rightarrow> bodyContent st' (body doc)
      | _ \<Rightarrow> None)"

text \<open>
  What a parser does not read back as it was serialized, and a serializer does not show:
  adjacent text nodes are read back as one text node (and an empty text node as none),
  and the \<^emph>\<open>is\<close> value that the serializer has written is read back as the first
  attribute of the element. \<open>readBack\<close> gives the normal form of a content for these two
  differences.
\<close>

fun joinText :: "string \<Rightarrow> markup list \<Rightarrow> markup list" where
  "joinText s (MLeaf (TextData t) # ms) = MLeaf (TextData (s @ t)) # ms"
| "joinText s ms = (if s = [] then ms else MLeaf (TextData s) # ms)"

fun mergeText :: "markup list \<Rightarrow> markup list" where
  "mergeText [] = []"
| "mergeText (MLeaf (TextData s) # ms) = joinText s (mergeText ms)"
| "mergeText (MLeaf (CommentData s) # ms) = MLeaf (CommentData s) # mergeText ms"
| "mergeText (MElement e a cs # ms) = MElement e a (mergeText cs) # mergeText ms"

fun dropIsAttr :: "einfo \<Rightarrow> attrs \<Rightarrow> attrs" where
  "dropIsAttr e [] = []"
| "dropIsAttr e ((n, v) # as) = (if n = ''is'' \<and> isValueOf e = Some v then as else (n, v) # as)"

fun dropIs :: "markup list \<Rightarrow> markup list" where
  "dropIs [] = []"
| "dropIs (MLeaf d # ms) = MLeaf d # dropIs ms"
| "dropIs (MElement e a cs # ms) = MElement e (dropIsAttr e a) (dropIs cs) # dropIs ms"

definition readBack :: "markup list \<Rightarrow> markup list" where
  "readBack m = mergeText (dropIs m)"

text \<open>The three rules of the classifier on a content.\<close>

fun cleanMarkup :: "markup list \<Rightarrow> markup list" where
  "cleanMarkup [] = []"
| "cleanMarkup (MLeaf d # ms) = MLeaf d # cleanMarkup ms"
| "cleanMarkup (MElement e a cs # ms) =
     (if tagOf e \<in> ALWAYS_DROP then cleanMarkup ms
      else if tagOf e \<notin> SAFE_ELEMENTS then cleanMarkup cs @ cleanMarkup ms
      else MElement e (cleanAttrs e a) (cleanMarkup cs) # cleanMarkup ms)"


section \<open>Properties of the Url validator\<close>

lemma filter_dropWhile_neg:
  assumes "\<And>x. Q x \<Longrightarrow> \<not> P x"
  shows "filter P (dropWhile Q xs) = filter P xs"
  using assms by (induction xs) auto

lemma stripControlAndSpace_trim: "stripControlAndSpace (trim r) = stripControlAndSpace r"
proof -
  have ws: "\<And>c. isWhiteSpace c \<Longrightarrow> \<not> \<not> isControlOrSpace c"
    by (simp add: isControlOrSpace_def)
  have "filter (\<lambda>c. \<not> isControlOrSpace c) (rev (dropWhile isWhiteSpace (rev (dropWhile isWhiteSpace r))))
      = rev (filter (\<lambda>c. \<not> isControlOrSpace c) (dropWhile isWhiteSpace (rev (dropWhile isWhiteSpace r))))"
    by (simp add: rev_filter)
  also have "\<dots> = rev (filter (\<lambda>c. \<not> isControlOrSpace c) (rev (dropWhile isWhiteSpace r)))"
    using ws by (simp add: filter_dropWhile_neg)
  also have "\<dots> = filter (\<lambda>c. \<not> isControlOrSpace c) (dropWhile isWhiteSpace r)"
    by (simp add: rev_filter)
  also have "\<dots> = filter (\<lambda>c. \<not> isControlOrSpace c) r"
    using ws by (simp add: filter_dropWhile_neg)
  finally show ?thesis
    by (simp add: stripControlAndSpace_def trim_def)
qed

lemma indexOf_char:
  "indexOf s [c] = (if c \<in> set s then int (length (takeWhile (\<lambda>x. x \<noteq> c) s)) else - 1)"
  by (induction s) (auto simp: startsWith_def Let_def)

lemma indexOf_colon:
  "indexOf s '':'' = (case firstColon s of Some k \<Rightarrow> int k | None \<Rightarrow> - 1)"
  by (simp add: indexOf_char firstColon_def)

text \<open>
  C1. For every value, absent (\<open>None\<close>) or a string, \<open>isSafeUrl\<close> decides as the
  algorithm of the specification does: absent and empty values are safe; control
  characters and white space are stripped everywhere and the rest is lowercased; the four
  listed schemes are rejected, \<^verbatim>\<open>//\<close> is accepted, a first colon at a position above 0
  is accepted exactly for the schemes http and https, and a value without a colon, or with
  its first colon at position 0, is accepted. The \<^verbatim>\<open>trim\<close> of the code changes nothing.
\<close>

theorem isSafeUrl_refines_spec: "isSafeUrl raw = isSafeUrl_spec raw"
proof (cases raw)
  case None
  then show ?thesis by (simp add: isSafeUrl_def isSafeUrl_spec_def)
next
  case (Some r)
  show ?thesis
    unfolding Some isSafeUrl_def isSafeUrl_spec_def
    by (simp add: Let_def stripControlAndSpace_trim indexOf_colon slice0_def
        stripControlAndSpace_def[symmetric] split: option.splits)
qed

section \<open>Node trees\<close>


lemma idsl_append [simp]: "idsl (xs @ ys) = idsl xs @ idsl ys"
  by (induction xs rule: idsl.induct) auto

lemma elemsl_append [simp]: "elemsl (xs @ ys) = elemsl xs @ elemsl ys"
  by (induction xs rule: elemsl.induct) auto

lemma idsl_single: "idsl [n] = nodeId n # (case n of Leaf i d \<Rightarrow> [] | Element i t a cs \<Rightarrow> idsl cs)"
  by (cases n) auto

lemma idsl_Cons: "idsl (n # ns) = idsl [n] @ idsl ns"
  using idsl_append[of "[n]" ns] by simp

lemma findNode_None_iff: "findNode i ns = None \<longleftrightarrow> i \<notin> set (idsl ns)"
  by (induction ns rule: idsl.induct) (auto split: option.splits)

lemma findNode_Some_id: "findNode i ns = Some n \<Longrightarrow> nodeId n = i"
  by (induction ns rule: idsl.induct) (auto split: option.splits if_splits)

lemma findNode_Some_ids: "findNode i ns = Some n \<Longrightarrow> set (idsl [n]) \<subseteq> set (idsl ns)"
  by (induction ns rule: idsl.induct) (auto split: option.splits if_splits)

lemma modify_absent: "i \<notin> set (idsl ns) \<Longrightarrow> modify i f ns = ns"
  by (induction ns rule: idsl.induct) auto

lemma modify_append [simp]: "modify i f (xs @ ys) = modify i f xs @ modify i f ys"
  by (induction xs rule: idsl.induct) auto

lemma findNode_append:
  "findNode i (xs @ ys) = (case findNode i xs of Some n \<Rightarrow> Some n | None \<Rightarrow> findNode i ys)"
  by (induction xs rule: idsl.induct) (auto split: option.splits)

lemma modify_head: "modify (nodeId n) f (n # ns) = f n @ modify (nodeId n) f ns"
  by (cases n) auto

lemma childNodes_ids:
  "childNodes st p = Some Y \<Longrightarrow> p \<in> set (idsl st) \<and> set (idsl Y) \<subseteq> set (idsl st)"
  unfolding childNodes_def
  using findNode_Some_ids[of p st] findNode_Some_id[of p st]
  by (auto split: option.splits node.splits)

lemma childNodes_Leaf: "childNodes (Leaf j d # ns) p = (if p = j then None else childNodes ns p)"
  by (simp add: childNodes_def)

lemma childNodes_Element:
  "childNodes (Element j t a cs # ns) p =
     (if p = j then Some cs else if p \<in> set (idsl cs) then childNodes cs p else childNodes ns p)"
proof (cases "p \<in> set (idsl cs)")
  case True
  then obtain m where "findNode p cs = Some m"
    using findNode_None_iff[of p cs] by (cases "findNode p cs") auto
  then show ?thesis using True by (simp add: childNodes_def)
next
  case False
  then have "findNode p cs = None" by (simp add: findNode_None_iff)
  then show ?thesis using False by (simp add: childNodes_def)
qed

lemma nodeId_in_idsl: "nodeId n \<in> set (idsl (n # ns))"
  by (cases n) auto

lemma mem_nodeId_idsl: "n \<in> set ns \<Longrightarrow> nodeId n \<in> set (idsl ns)"
  by (induction ns rule: idsl.induct) auto

lemma setChildren_absent: "p \<notin> set (idsl ns) \<Longrightarrow> setChildren p X ns = ns"
  by (simp add: setChildren_def modify_absent)

lemma modify_via_parent:
  assumes "distinct (idsl st)" "childNodes st p = Some (pre @ n # post)"
  shows "modify (nodeId n) f st = setChildren p (pre @ f n @ post) st"
  using assms
proof (induction st rule: idsl.induct)
  case 1
  then show ?case by (simp add: childNodes_def)
next
  case (2 j d ns)
  from 2(3) have pj: "p \<noteq> j" and ch: "childNodes ns p = Some (pre @ n # post)"
    by (auto simp: childNodes_Leaf split: if_splits)
  from childNodes_ids[OF ch] have "nodeId n \<in> set (idsl ns)"
    using mem_nodeId_idsl[of n "pre @ n # post"] by auto
  with 2(2) have "nodeId n \<noteq> j" by auto
  with pj 2 ch show ?case by (simp add: setChildren_def)
next
  case (3 j t a cs ns)
  let ?k = "nodeId n"
  show ?case
  proof (cases "p = j")
    case True
    with 3(4) have cs: "cs = pre @ n # post" by (simp add: childNodes_Element)
    have kin: "?k \<in> set (idsl cs)" using mem_nodeId_idsl[of n cs] by (simp add: cs)
    with 3(3) have kj: "?k \<noteq> j" and kns: "?k \<notin> set (idsl ns)" by auto
    from 3(3) have "distinct (idsl cs)" by simp
    then have "distinct (idsl pre @ idsl [n] @ idsl post)"
      using idsl_Cons[of n post] by (simp add: cs)
    moreover have "?k \<in> set (idsl [n])" by (rule nodeId_in_idsl)
    ultimately have kpre: "?k \<notin> set (idsl pre)" and kpost: "?k \<notin> set (idsl post)"
      by (simp_all add: disjoint_iff) blast+
    have "modify ?k f cs = pre @ f n @ post"
      using kpre kpost by (simp add: cs modify_absent modify_head)
    moreover from 3(3) True have "p \<notin> set (idsl ns)" by simp
    ultimately show ?thesis
      using True kj kns by (simp add: setChildren_def modify_absent)
  next
    case False
    show ?thesis
    proof (cases "childNodes cs p")
      case (Some Y)
      with False 3(4) have ch: "childNodes cs p = Some (pre @ n # post)"
        by (auto simp: childNodes_Element split: if_splits dest: childNodes_ids)
      from childNodes_ids[OF ch] have kin: "?k \<in> set (idsl cs)" and pin: "p \<in> set (idsl cs)"
        using mem_nodeId_idsl[of n "pre @ n # post"] by auto
      with 3(3) have "?k \<noteq> j" "?k \<notin> set (idsl ns)" "p \<notin> set (idsl ns)" by auto
      moreover from 3(3) have "distinct (idsl cs)" by simp
      ultimately show ?thesis
        using False 3(1)[OF _ ch] by (simp add: setChildren_def modify_absent)
    next
      case None
      have pcs: "p \<notin> set (idsl cs)"
      proof
        assume "p \<in> set (idsl cs)"
        with False 3(4) None show False by (simp add: childNodes_Element)
      qed
      with False 3(4) have ch: "childNodes ns p = Some (pre @ n # post)"
        by (auto simp: childNodes_Element split: if_splits)
      from childNodes_ids[OF ch] have kin: "?k \<in> set (idsl ns)"
        using mem_nodeId_idsl[of n "pre @ n # post"] by auto
      with 3(3) have "?k \<noteq> j" "?k \<notin> set (idsl cs)" by auto
      moreover from 3(3) have "distinct (idsl ns)" by simp
      ultimately show ?thesis
        using False pcs 3(2)[OF _ ch] by (simp add: setChildren_def modify_absent)
    qed
  qed
qed


lemma subnodes_append [simp]: "subnodes (xs @ ys) = subnodes xs @ subnodes ys"
  by (induction xs rule: subnodes.induct) auto

lemma idsl_subnodes: "idsl ns = map nodeId (subnodes ns)"
  by (induction ns rule: subnodes.induct) auto

lemma set_subset_subnodes: "set ns \<subseteq> set (subnodes ns)"
  by (induction ns rule: subnodes.induct) auto

lemma findNode_subnodes: "findNode i ns = Some n \<Longrightarrow> n \<in> set (subnodes ns)"
  by (induction ns rule: subnodes.induct) (auto split: option.splits if_splits)

lemma findNode_unique:
  assumes "distinct (idsl st)" "n \<in> set (subnodes st)"
  shows "findNode (nodeId n) st = Some n"
proof -
  have "nodeId n \<in> set (idsl st)" using assms(2) by (auto simp: idsl_subnodes)
  then obtain m where m: "findNode (nodeId n) st = Some m"
    using findNode_None_iff[of "nodeId n" st] by (cases "findNode (nodeId n) st") auto
  then have "m \<in> set (subnodes st)" "nodeId m = nodeId n"
    by (auto dest: findNode_subnodes findNode_Some_id)
  with assms have "m = n"
    by (auto simp: idsl_subnodes distinct_map inj_on_def)
  with m show ?thesis by simp
qed

lemma subnodes_children:
  "Element i t a cs \<in> set (subnodes st) \<Longrightarrow> set (subnodes cs) \<subseteq> set (subnodes st)"
  by (induction st rule: subnodes.induct) auto

lemma childNodes_subnodes:
  assumes "childNodes st p = Some Y"
  shows "\<exists>t a. Element p t a Y \<in> set (subnodes st)"
proof -
  from assms obtain i t a where f: "findNode p st = Some (Element i t a Y)"
    by (auto simp: childNodes_def split: option.splits node.splits)
  from findNode_Some_id[OF f] findNode_subnodes[OF f] show ?thesis by auto
qed

lemma child_found:
  assumes "distinct (idsl st)" "childNodes st p = Some Y" "n \<in> set Y"
  shows "findNode (nodeId n) st = Some n"
proof -
  from childNodes_subnodes[OF assms(2)] obtain t a where "Element p t a Y \<in> set (subnodes st)"
    by blast
  then have "set (subnodes Y) \<subseteq> set (subnodes st)" by (rule subnodes_children)
  with assms(3) set_subset_subnodes[of Y] have "n \<in> set (subnodes st)" by blast
  with assms(1) show ?thesis by (rule findNode_unique)
qed

lemma parent_not_in_children:
  assumes "distinct (idsl st)" "childNodes st p = Some Y"
  shows "p \<notin> set (idsl Y)"
  using assms
proof (induction st rule: idsl.induct)
  case 1
  then show ?case by (simp add: childNodes_def)
next
  case (2 j d ns)
  then show ?case by (auto simp: childNodes_Leaf split: if_splits)
next
  case (3 j t a cs ns)
  then show ?case by (auto simp: childNodes_Element split: if_splits)
qed

lemma parentOf_absent: "k \<notin> set (idsl xs) \<Longrightarrow> parentOf k xs = None"
  by (induction xs rule: idsl.induct) (auto dest: mem_nodeId_idsl)

lemma parentOf_not_root:
  assumes "distinct (idsl xs)" "parentOf k xs = Some p"
  shows "k \<notin> nodeId ` set xs"
  using assms
proof (induction xs rule: idsl.induct)
  case 1
  then show ?case by simp
next
  case (2 j d ns)
  then have "parentOf k ns = Some p" by simp
  then have "k \<in> set (idsl ns)" using parentOf_absent[of k ns] by auto
  with 2 show ?case by auto
next
  case (3 j t a cs ns)
  show ?case
  proof (cases "k \<in> set (idsl cs)")
    case True
    with 3(3) have "k \<noteq> j" "k \<notin> set (idsl ns)" by auto
    then show ?thesis using mem_nodeId_idsl[of _ ns] by auto
  next
    case False
    then have "k \<notin> nodeId ` set cs" "parentOf k cs = None"
      using mem_nodeId_idsl[of _ cs] parentOf_absent by auto
    with 3(4) have po: "parentOf k ns = Some p" by simp
    then have "k \<in> set (idsl ns)" using parentOf_absent[of k ns] by auto
    with 3(3) have "k \<noteq> j" by auto
    with 3(2)[OF _ po] 3(3) show ?thesis by auto
  qed
qed

lemma child_parentOf:
  assumes "distinct (idsl st)" "childNodes st p = Some Y" "n \<in> set Y"
  shows "parentOf (nodeId n) st = Some p"
  using assms
proof (induction st rule: idsl.induct)
  case 1
  then show ?case by (simp add: childNodes_def)
next
  case (2 j d ns)
  then show ?case by (auto simp: childNodes_Leaf split: if_splits)
next
  case (3 j t a cs ns)
  let ?k = "nodeId n"
  show ?case
  proof (cases "p = j")
    case True
    with 3(4) have "cs = Y" by (simp add: childNodes_Element)
    with 3(5) True show ?thesis by simp
  next
    case False
    show ?thesis
    proof (cases "p \<in> set (idsl cs)")
      case True
      with False 3(4) have ch: "childNodes cs p = Some Y" by (simp add: childNodes_Element)
      from 3(3) have d: "distinct (idsl cs)" by simp
      from 3(1)[OF d ch 3(5)] have po: "parentOf ?k cs = Some p" .
      from parentOf_not_root[OF d po] po show ?thesis by simp
    next
      case pcs: False
      with False 3(4) have ch: "childNodes ns p = Some Y" by (simp add: childNodes_Element)
      from 3(3) have d: "distinct (idsl ns)" by simp
      from childNodes_ids[OF ch] mem_nodeId_idsl[OF 3(5)] have "?k \<in> set (idsl ns)" by auto
      with 3(3) have "?k \<notin> set (idsl cs)" by auto
      then have "parentOf ?k cs = None" "?k \<notin> nodeId ` set cs"
        using parentOf_absent mem_nodeId_idsl by auto
      with 3(2)[OF d ch 3(5)] show ?thesis by simp
    qed
  qed
qed

lemma root_parentOf:
  assumes "distinct (idsl st)" "n \<in> set st"
  shows "parentOf (nodeId n) st = None"
proof (cases "parentOf (nodeId n) st")
  case None
  then show ?thesis .
next
  case (Some p)
  from parentOf_not_root[OF assms(1) Some] assms(2) show ?thesis by auto
qed

lemma idpres_withChildren [simp]: "idpres (withChildren X)"
  unfolding idpres_def by (rule allI, case_tac n) auto

lemma idpres_withAttrs [simp]: "idpres (withAttrs g)"
  unfolding idpres_def by (rule allI, case_tac n) auto

lemma findNode_modify_same:
  assumes "idpres f"
  shows "findNode i (modify i f st) = (case findNode i st of None \<Rightarrow> None | Some n \<Rightarrow> Some (hd (f n)))"
proof (induction st rule: idsl.induct)
  case 1
  then show ?case by simp
next
  case (2 j d ns)
  from assms obtain m where "f (Leaf j d) = [m]" "nodeId m = j"
    unfolding idpres_def by (metis nodeId.simps(1))
  with 2 show ?case by (cases m) auto
next
  case (3 j t a cs ns)
  from assms obtain m where "f (Element j t a cs) = [m]" "nodeId m = j"
    unfolding idpres_def by (metis nodeId.simps(2))
  with 3 show ?case by (cases m) (auto split: option.splits)
qed

lemma childNodes_setChildren:
  assumes "childNodes st p = Some Y"
  shows "childNodes (setChildren p X st) p = Some X"
  using assms
  by (auto simp: childNodes_def setChildren_def findNode_modify_same
      split: option.splits node.splits)

lemma modify_modify_same:
  assumes "idpres g"
  shows "modify i f (modify i g st) = modify i (\<lambda>n. f (hd (g n))) st"
proof (induction st rule: idsl.induct)
  case 1
  then show ?case by simp
next
  case (2 j d ns)
  from assms obtain m where "g (Leaf j d) = [m]" "nodeId m = j"
    unfolding idpres_def by (metis nodeId.simps(1))
  with 2 show ?case by (cases m) auto
next
  case (3 j t a cs ns)
  from assms obtain m where "g (Element j t a cs) = [m]" "nodeId m = j"
    unfolding idpres_def by (metis nodeId.simps(2))
  with 3 show ?case by (cases m) auto
qed

lemma withChildren_withChildren: "withChildren X (hd (withChildren Y n)) = withChildren X n"
  by (cases n) auto

lemma setChildren_setChildren: "setChildren p X (setChildren p Y st) = setChildren p X st"
  by (simp add: setChildren_def modify_modify_same withChildren_withChildren)

lemma setChildren_same:
  assumes "distinct (idsl st)" "childNodes st p = Some Y"
  shows "setChildren p Y st = st"
  using assms
proof (induction st rule: idsl.induct)
  case 1
  then show ?case by (simp add: setChildren_def)
next
  case (2 j d ns)
  then show ?case by (auto simp: childNodes_Leaf setChildren_def split: if_splits)
next
  case (3 j t a cs ns)
  show ?case
  proof (cases "p = j")
    case True
    with 3 show ?thesis by (auto simp: childNodes_Element setChildren_def modify_absent)
  next
    case False
    show ?thesis
    proof (cases "p \<in> set (idsl cs)")
      case True
      with 3(3) have "p \<notin> set (idsl ns)" by auto
      with 3 True False show ?thesis
        by (auto simp: childNodes_Element setChildren_def modify_absent)
    next
      case pcs: False
      with 3 False show ?thesis
        by (auto simp: childNodes_Element setChildren_def modify_absent)
    qed
  qed
qed

lemma mset_setChildren:
  assumes "distinct (idsl st)" "childNodes st p = Some Y"
  shows "mset (idsl (setChildren p X st)) + mset (idsl Y) = mset (idsl st) + mset (idsl X)"
  using assms
proof (induction st rule: idsl.induct)
  case 1
  then show ?case by (simp add: childNodes_def)
next
  case (2 j d ns)
  then show ?case by (auto simp: childNodes_Leaf setChildren_def split: if_splits)
next
  case (3 j t a cs ns)
  show ?case
  proof (cases "p = j")
    case True
    with 3 show ?thesis by (auto simp: childNodes_Element setChildren_def modify_absent)
  next
    case False
    show ?thesis
    proof (cases "p \<in> set (idsl cs)")
      case True
      with 3(3) have "p \<notin> set (idsl ns)" by auto
      with 3 True False show ?thesis
        by (auto simp: childNodes_Element setChildren_def modify_absent)
    next
      case pcs: False
      with 3 False show ?thesis
        by (auto simp: childNodes_Element setChildren_def modify_absent)
    qed
  qed
qed

lemma mset_state:
  assumes "distinct (idsl st)" "childNodes st p = Some Y"
    and "mset (idsl X) + mset (idsl D) = mset (idsl Y)"
  shows "mset (idsl (setChildren p X st @ D)) = mset (idsl st)"
proof -
  from mset_setChildren[OF assms(1,2), of X] assms(3)
  have "mset (idsl (setChildren p X st)) + mset (idsl D) + mset (idsl Y) = mset (idsl st) + mset (idsl Y)"
    by (simp add: ac_simps)
  then show ?thesis by simp
qed

lemma distinct_state:
  assumes "distinct (idsl st)" "childNodes st p = Some Y"
    and "mset (idsl X) + mset (idsl D) = mset (idsl Y)"
  shows "distinct (idsl (setChildren p X st @ D))"
  using mset_state[OF assms] assms(1) by (metis mset_eq_imp_distinct_iff)

section \<open>The classifier on a node of a tree\<close>

lemma toLowerCase_rel [simp]: "toLowerCase ''rel'' = ''rel''"
  by code_simp
lemma toLowerCase_target [simp]: "toLowerCase ''target'' = ''target''"
  by code_simp

lemma asciiLowerCase_names:
  "asciiLowerCase ''rel'' = ''rel''" "asciiLowerCase ''target'' = ''target''"
  "asciiLowerCase ''is'' = ''is''" "asciiLowerCase ''href'' = ''href''"
  "asciiLowerCase ''src'' = ''src''"
  by code_simp+

lemma qualifiedName_names [simp]:
  "qualifiedName e ''rel'' = ''rel''" "qualifiedName e ''target'' = ''target''"
  "qualifiedName e ''is'' = ''is''" "qualifiedName e ''href'' = ''href''"
  "qualifiedName e ''src'' = ''src''"
  by (simp_all add: qualifiedName_def asciiLowerCase_names)

lemma safe_not_inherited: "tag \<in> SAFE_ELEMENTS \<Longrightarrow> TAG_ATTRS tag \<noteq> Inherited"
  unfolding SAFE_ELEMENTS_def TAG_ATTRS_def OBJECT_PROTOTYPE_def
  by (elim insertE emptyE; simp)

lemma isAllowedAttr_total:
  "TAG_ATTRS tag \<noteq> Inherited \<Longrightarrow> \<exists>b. isAllowedAttr tag name = Inr b"
  by (cases "TAG_ATTRS tag") (auto simp: isAllowedAttr_def Let_def)

lemma withAttrs_id: "withAttrs (\<lambda>t a. a) n = [n]"
  by (cases n) auto

lemma modify_self: "modify i (\<lambda>n. [n]) st = st"
  by (induction st rule: idsl.induct) auto

lemma withAttrs_comp: "withAttrs f (hd (withAttrs g n)) = withAttrs (\<lambda>t a. f t (g t a)) n"
  by (cases n) auto

lemma attrLoop_modify:
  assumes "TAG_ATTRS tag \<noteq> Inherited"
  shows "attrLoop tag el snap st = Inr (modify el (withAttrs (\<lambda>t. attrFold tag t snap)) st)"
proof (induction snap arbitrary: st)
  case Nil
  have "(\<lambda>t. attrFold tag t []) = (\<lambda>t a. a)" by (intro ext) simp
  then show ?case by (simp add: withAttrs_id[abs_def] modify_self)
next
  case (Cons av rest)
  obtain aname v where av: "av = (aname, v)" by (cases av)
  from isAllowedAttr_total[OF assms] obtain b where b: "isAllowedAttr tag (toLowerCase aname) = Inr b"
    by blast
  show ?case
  proof (cases "keepsAttr tag av")
    case True
    then have e: "(\<lambda>t. attrFold tag t (av # rest)) = (\<lambda>t. attrFold tag t rest)"
      by (intro ext) simp
    from True b have l: "attrLoop tag el (av # rest) st = attrLoop tag el rest st"
      by (auto simp: av keepsAttr_def Let_def)
    show ?thesis by (simp only: e l Cons)
  next
    case False
    then have f: "(\<lambda>t. attrFold tag t (av # rest))
        = (\<lambda>t a. attrFold tag t rest (removeAttr (qualifiedName t aname) a))"
      by (intro ext) (simp add: av)
    from False b have "attrLoop tag el (av # rest) st = attrLoop tag el rest (removeAttribute st el aname)"
      by (auto simp: av keepsAttr_def Let_def)
    then show ?thesis
      using Cons[of "removeAttribute st el aname"]
      by (simp only: f) (simp add: removeAttribute_def modify_modify_same withAttrs_comp)
  qed
qed

lemma ensureSafeLinkAttrs_modify:
  assumes "findNode el st = Some (Element el tn a cs)"
  shows "ensureSafeLinkAttrs st el =
           Inr (if tagOf tn = ''a'' \<and> map_of a ''target'' = Some ''_blank''
                then modify el (withAttrs (\<lambda>t. setAttr ''rel'' (join '' '' (relTokens (map_of a ''rel''))))) st
                else st)"
proof -
  have rel: "(case map_of a ''rel'' of None \<Rightarrow> [] | Some v \<Rightarrow> if v = [] then [] else v)
        = (case map_of a ''rel'' of None \<Rightarrow> [] | Some v \<Rightarrow> v)"
    by (simp split: option.splits)
  show ?thesis
    using assms
    by (simp add: ensureSafeLinkAttrs_def tagName_def getAttribute_def
        setAttribute_def relTokens_def Let_def rel)
qed

lemma safe_not_dropped: "tag \<in> SAFE_ELEMENTS \<Longrightarrow> tag \<notin> ALWAYS_DROP"
  unfolding SAFE_ELEMENTS_def ALWAYS_DROP_def
  by (elim insertE emptyE; simp)

lemma sanitizeElement_keep_cases:
  assumes "findNode el st = Some (Element el tn a cs)" "tagOf tn \<in> SAFE_ELEMENTS"
  shows "sanitizeElement st el =
           Some (Inr (modify el (withAttrs (\<lambda>t x.
              if tagOf tn = ''a'' \<and> map_of (attrFold (tagOf tn) tn a a) ''target'' = Some ''_blank''
              then setAttr ''rel'' (join '' '' (relTokens (map_of (attrFold (tagOf tn) tn a a) ''rel'')))
                     (attrFold (tagOf tn) t a x)
              else attrFold (tagOf tn) t a x)) st))"
proof -
  let ?tag = "tagOf tn"
  let ?st1 = "modify el (withAttrs (\<lambda>t. attrFold ?tag t a)) st"
  have loop: "attrLoop ?tag el a st = Inr ?st1"
    using assms(2) by (simp add: attrLoop_modify safe_not_inherited)
  have f1: "findNode el ?st1 = Some (Element el tn (attrFold ?tag tn a a) cs)"
    using assms(1) by (simp add: findNode_modify_same)
  have "sanitizeElement st el = Some (ensureSafeLinkAttrs ?st1 el)"
    using assms loop
    by (simp add: sanitizeElement_def tagName_def attributes_def Let_def safe_not_dropped)
  then have san: "sanitizeElement st el =
      Some (Inr (if tagOf tn = ''a'' \<and> map_of (attrFold ?tag tn a a) ''target'' = Some ''_blank''
                then modify el (withAttrs (\<lambda>t. setAttr ''rel'' (join '' '' (relTokens (map_of (attrFold ?tag tn a a) ''rel''))))) ?st1
                else ?st1))"
    by (simp only: ensureSafeLinkAttrs_modify[OF f1])
  show ?thesis
  proof (cases "tagOf tn = ''a'' \<and> map_of (attrFold ?tag tn a a) ''target'' = Some ''_blank''")
    case True
    have "modify el (withAttrs (\<lambda>t. setAttr ''rel'' (join '' '' (relTokens (map_of (attrFold ?tag tn a a) ''rel''))))) ?st1
        = modify el (withAttrs (\<lambda>t x. setAttr ''rel'' (join '' '' (relTokens (map_of (attrFold ?tag tn a a) ''rel'')))
             (attrFold ?tag t a x))) st"
      by (simp add: modify_modify_same withAttrs_comp)
    then show ?thesis
      unfolding san by (simp only: if_P[OF True])
  next
    case False
    show ?thesis
      unfolding san by (simp only: if_not_P[OF False])
  qed
qed

lemma sanitizeElement_keep_find:
  assumes "findNode el st = Some (Element el tn a cs)" "tagOf tn \<in> SAFE_ELEMENTS"
  shows "\<exists>st'. sanitizeElement st el = Some (Inr st') \<and>
           findNode el st' = Some (Element el tn (cleanAttrs tn a) cs)"
  using assms(1)
  by (simp add: sanitizeElement_keep_cases[OF assms] findNode_modify_same cleanAttrs_def
      hardenAttrs_def)

lemma sanitizeElement_keep:
  assumes "distinct (idsl st)" "childNodes st p = Some (pre @ Element i tn a cs # post)"
    "tagOf tn \<in> SAFE_ELEMENTS"
  shows "sanitizeElement st i =
           Some (Inr (setChildren p (pre @ Element i tn (cleanAttrs tn a) cs # post) st))"
proof -
  have f: "findNode i st = Some (Element i tn a cs)"
    using child_found[OF assms(1,2), of "Element i tn a cs"] by simp
  show ?thesis
    using modify_via_parent[OF assms(1,2)]
    by (simp add: sanitizeElement_keep_cases[OF f assms(3)] cleanAttrs_def hardenAttrs_def)
qed

lemma remove_child:
  assumes "distinct (idsl st)" "childNodes st p = Some (pre @ n # post)"
  shows "remove st (nodeId n) = setChildren p (pre @ post) st @ [n]"
proof -
  have "findNode (nodeId n) st = Some n" using child_found[OF assms, of n] by simp
  moreover have "parentOf (nodeId n) st = Some p" using child_parentOf[OF assms, of n] by simp
  ultimately show ?thesis
    using modify_via_parent[OF assms, of "\<lambda>_. []"] by (simp add: remove_def parentNode_def)
qed

lemma idsl_mem_subset: "n \<in> set ns \<Longrightarrow> set (idsl [n]) \<subseteq> set (idsl ns)"
  by (induction ns rule: idsl.induct) auto

lemma insertBefore_firstChild:
  assumes "distinct (idsl st)" "childNodes st p = Some (pre @ Element i tn a (c # cs) # post)"
  shows "insertBefore st p (nodeId c) i = Inr (setChildren p (pre @ c # Element i tn a cs # post) st)"
proof -
  let ?E = "Element i tn a (c # cs)"
  let ?E' = "Element i tn a cs"
  have fi: "findNode i st = Some ?E" using child_found[OF assms, of ?E] by simp
  then have chi: "childNodes st i = Some ([] @ c # cs)" by (simp add: childNodes_def)
  have fc: "findNode (nodeId c) st = Some c" using child_found[OF assms(1) chi, of c] by simp
  have pi: "parentNode st i = Some p"
    using child_parentOf[OF assms, of ?E] by (simp add: parentNode_def)
  have "set (idsl [c]) \<subseteq> set (idsl (c # cs))" by (rule idsl_mem_subset) simp
  also have "\<dots> \<subseteq> set (idsl [?E])" by auto
  also have "\<dots> \<subseteq> set (idsl (pre @ ?E # post))" by (rule idsl_mem_subset) simp
  finally have sub: "set (idsl [c]) \<subseteq> set (idsl (pre @ ?E # post))" .
  with parent_not_in_children[OF assms] have pc: "p \<notin> set (idsl [c])" by blast
  have "nodeId c \<in> set (idsl (c # cs))" by (rule nodeId_in_idsl)
  with parent_not_in_children[OF assms(1) chi] have ic: "i \<noteq> nodeId c" by auto
  let ?sta = "setChildren p (pre @ ?E' # post) st"
  have sta: "modify (nodeId c) (\<lambda>_. []) st = ?sta"
  proof -
    have "modify (nodeId c) (\<lambda>_. []) st = setChildren i cs st"
      using modify_via_parent[OF assms(1) chi, of "\<lambda>_. []"] by simp
    also have "\<dots> = ?sta"
      using modify_via_parent[OF assms, of "withChildren cs"] by (simp add: setChildren_def)
    finally show ?thesis .
  qed
  have "mset (idsl (pre @ ?E' # post)) + mset (idsl [c]) = mset (idsl (pre @ ?E # post))"
    using idsl_Cons[of c cs] by simp
  from distinct_state[OF assms this] have da: "distinct (idsl ?sta)" by simp
  have cha: "childNodes ?sta p = Some (pre @ ?E' # post)"
    using assms(2) by (rule childNodes_setChildren)
  have "modify i (\<lambda>r. [c, r]) ?sta = setChildren p (pre @ c # ?E' # post) st"
    using modify_via_parent[OF da cha, of "\<lambda>r. [c, r]"] by (simp add: setChildren_setChildren)
  then show ?thesis
    using assms(2) fc pc pi ic by (simp add: insertBefore_def sta)
qed

lemma unwrapLoop_children:
  assumes "distinct (idsl st)" "childNodes st p = Some (pre @ Element i tn a cs # post)"
  shows "unwrapLoop st p i = Some (Inr (setChildren p (pre @ cs @ Element i tn a [] # post) st))"
  using assms
proof (induction cs arbitrary: st pre)
  case Nil
  have "findNode i st = Some (Element i tn a [])"
    using child_found[OF Nil, of "Element i tn a []"] by simp
  then have "firstChild st i = None" by (simp add: firstChild_def childNodes_def)
  then show ?case
    using setChildren_same[OF Nil] by (subst unwrapLoop.simps) simp
next
  case (Cons c cs)
  let ?st1 = "setChildren p (pre @ c # Element i tn a cs # post) st"
  have "findNode i st = Some (Element i tn a (c # cs))"
    using child_found[OF Cons(2,3), of "Element i tn a (c # cs)"] by simp
  then have fc: "firstChild st i = Some (nodeId c)" by (simp add: firstChild_def childNodes_def)
  have ib: "insertBefore st p (nodeId c) i = Inr ?st1"
    using Cons(2,3) by (rule insertBefore_firstChild)
  have "mset (idsl (pre @ c # Element i tn a cs # post)) + mset (idsl [])
      = mset (idsl (pre @ Element i tn a (c # cs) # post))"
    using idsl_Cons[of c cs] idsl_Cons[of c "Element i tn a cs # post"] by simp
  from distinct_state[OF Cons(2,3) this] have d1: "distinct (idsl ?st1)" by simp
  have ch1: "childNodes ?st1 p = Some ((pre @ [c]) @ Element i tn a cs # post)"
    using childNodes_setChildren[OF Cons(3)] by simp
  from Cons(1)[OF d1 ch1] have "unwrapLoop ?st1 p i =
      Some (Inr (setChildren p (pre @ c # cs @ Element i tn a [] # post) st))"
    by (simp add: setChildren_setChildren)
  then show ?case
    using fc ib by (subst unwrapLoop.simps) simp
qed

lemma unwrapElement_child:
  assumes "distinct (idsl st)" "childNodes st p = Some (pre @ Element i tn a cs # post)"
  shows "unwrapElement st i =
           Some (Inr (setChildren p (pre @ cs @ post) st @ [Element i tn a []]))"
proof -
  let ?E = "Element i tn a cs"
  let ?st1 = "setChildren p (pre @ cs @ Element i tn a [] # post) st"
  have pi: "parentNode st i = Some p"
    using child_parentOf[OF assms, of ?E] by (simp add: parentNode_def)
  have loop: "unwrapLoop st p i = Some (Inr ?st1)"
    using assms by (rule unwrapLoop_children)
  have "mset (idsl (pre @ cs @ Element i tn a [] # post)) + mset (idsl [])
      = mset (idsl (pre @ ?E # post))"
    using idsl_Cons[of "Element i tn a []" post] by simp
  from distinct_state[OF assms this] have d1: "distinct (idsl ?st1)" by simp
  have ch1: "childNodes ?st1 p = Some ((pre @ cs) @ Element i tn a [] # post)"
    using childNodes_setChildren[OF assms(2)] by simp
  from remove_child[OF d1 ch1] have "remove ?st1 i = setChildren p (pre @ cs @ post) st @ [Element i tn a []]"
    by (simp add: setChildren_setChildren)
  then show ?thesis
    using pi loop by (simp add: unwrapElement_def)
qed


lemma forEachNode_append:
  "forEachNode (xs @ ys) st =
     (case forEachNode xs st of Some (Inr st') \<Rightarrow> forEachNode ys st' | r \<Rightarrow> r)"
  by (induction xs arbitrary: st) (auto split: option.splits sum.splits)

lemma clean_append: "clean (xs @ ys) = clean xs @ clean ys"
  by (induction xs rule: clean.induct) auto

lemma setChildren_append: "setChildren p X (xs @ ys) = setChildren p X xs @ setChildren p X ys"
  by (simp add: setChildren_def)

lemma childNodes_append_left: "childNodes xs p = Some Y \<Longrightarrow> childNodes (xs @ ys) p = Some Y"
  by (auto simp: childNodes_def findNode_append split: option.splits node.splits)

lemma childNodes_append_right: "p \<notin> set (idsl xs) \<Longrightarrow> childNodes (xs @ ys) p = childNodes ys p"
  using findNode_None_iff[of p xs] by (simp add: childNodes_def findNode_append)

lemma sanitizeElement_drop:
  assumes "findNode i st = Some (Element i tn a cs)" "tagOf tn \<in> ALWAYS_DROP"
  shows "sanitizeElement st i = Some (Inr (remove st i))"
  using assms by (simp add: sanitizeElement_def tagName_def Let_def)

lemma sanitizeElement_unwrap:
  assumes "findNode i st = Some (Element i tn a cs)" "tagOf tn \<notin> ALWAYS_DROP"
    "tagOf tn \<notin> SAFE_ELEMENTS"
  shows "sanitizeElement st i = unwrapElement st i"
  using assms by (simp add: sanitizeElement_def tagName_def Let_def)

lemma setChildren_detached:
  assumes "distinct (idsl (A @ D))" "childNodes A p = Some Y"
  shows "setChildren p X (A @ D) = setChildren p X A @ D"
proof -
  from childNodes_ids[OF assms(2)] have "p \<in> set (idsl A)" by simp
  with assms(1) have "p \<notin> set (idsl D)" by auto
  then show ?thesis by (simp add: setChildren_append setChildren_absent)
qed

lemma walk_clean:
  assumes "distinct (idsl st)" "childNodes st p = Some (pre @ ns @ post)"
  shows "\<exists>D. forEachNode (elemsl ns) st = Some (Inr (setChildren p (pre @ clean ns @ post) st @ D)) \<and>
             mset (idsl (clean ns)) + mset (idsl D) = mset (idsl ns)"
  using assms
proof (induction "length (idsl ns)" arbitrary: ns st p pre post rule: less_induct)
  case less
  note d = less.prems(1) and ch = less.prems(2)
  show ?case
  proof (cases ns rule: idsl.cases)
    case 1
    with setChildren_same[OF d] ch show ?thesis by simp
  next
    case (2 j dat rest)
    have "length (idsl rest) < length (idsl ns)" by (simp add: 2)
    moreover have "childNodes st p = Some ((pre @ [Leaf j dat]) @ rest @ post)"
      using ch by (simp add: 2)
    ultimately obtain D where
      "forEachNode (elemsl rest) st =
         Some (Inr (setChildren p ((pre @ [Leaf j dat]) @ clean rest @ post) st @ D))"
      "mset (idsl (clean rest)) + mset (idsl D) = mset (idsl rest)"
      using less.hyps[OF _ d] by blast
    then show ?thesis by (auto simp: 2)
  next
    case (3 i tn a cs rest)
    let ?E = "Element i tn a cs"
    let ?tag = "tagOf tn"
    have ch': "childNodes st p = Some (pre @ ?E # rest @ post)" using ch by (simp add: 3)
    have fi: "findNode i st = Some ?E" using child_found[OF d ch', of ?E] by simp
    have lcs: "length (idsl cs) < length (idsl ns)" and lrest: "length (idsl rest) < length (idsl ns)"
      by (simp_all add: 3)
    have el: "elemsl ns = [i] @ elemsl cs @ elemsl rest" by (simp add: 3)
    show ?thesis
    proof (cases "?tag \<in> ALWAYS_DROP")
      case True
      let ?A = "setChildren p (pre @ rest @ post) st"
      let ?st1 = "?A @ [?E]"
      have s1: "sanitizeElement st i = Some (Inr ?st1)"
        using sanitizeElement_drop[OF fi True] remove_child[OF d ch'] by simp
      have "mset (idsl (pre @ rest @ post)) + mset (idsl [?E]) = mset (idsl (pre @ ?E # rest @ post))"
        by simp
      from distinct_state[OF d ch' this] have d1: "distinct (idsl ?st1)" .
      then have iA: "i \<notin> set (idsl ?A)" by auto
      have chi: "childNodes ?st1 i = Some ([] @ cs @ [])"
        using iA by (simp add: childNodes_append_right) (simp add: childNodes_def)
      from less.hyps[OF lcs d1 chi] obtain D1 where
        w1: "forEachNode (elemsl cs) ?st1 = Some (Inr (setChildren i (clean cs) ?st1 @ D1))"
        and m1: "mset (idsl (clean cs)) + mset (idsl D1) = mset (idsl cs)"
        by auto
      let ?E' = "Element i tn a (clean cs)"
      let ?st2 = "?A @ ([?E'] @ D1)"
      have st2: "setChildren i (clean cs) ?st1 @ D1 = ?st2"
        using iA by (simp add: setChildren_append setChildren_absent) (simp add: setChildren_def)
      have cs_eq: "cs = [] @ cs @ []" by simp
      have d2: "distinct (idsl ?st2)"
        using distinct_state[OF d1 chi[folded cs_eq] m1] unfolding st2 .
      have chA: "childNodes ?A p = Some (pre @ rest @ post)"
        using ch' by (rule childNodes_setChildren)
      then have chp2: "childNodes ?st2 p = Some (pre @ rest @ post)"
        by (rule childNodes_append_left)
      from less.hyps[OF lrest d2 chp2] obtain D2 where
        w2: "forEachNode (elemsl rest) ?st2 = Some (Inr (setChildren p (pre @ clean rest @ post) ?st2 @ D2))"
        and m2: "mset (idsl (clean rest)) + mset (idsl D2) = mset (idsl rest)"
        by auto
      have "setChildren p (pre @ clean rest @ post) ?st2
          = setChildren p (pre @ clean rest @ post) st @ ([?E'] @ D1)"
        using setChildren_detached[OF d2 chA] by (simp add: setChildren_setChildren)
      with w2 have w2': "forEachNode (elemsl rest) ?st2 =
          Some (Inr (setChildren p (pre @ clean rest @ post) st @ ([?E'] @ D1 @ D2)))"
        by simp
      have "forEachNode (elemsl ns) st =
          Some (Inr (setChildren p (pre @ clean ns @ post) st @ ([?E'] @ D1 @ D2)))"
        using s1 w1 w2' True unfolding el st2
        by (simp add: forEachNode_append 3)
      moreover have "mset (idsl (clean ns)) + mset (idsl ([?E'] @ D1 @ D2)) = mset (idsl ns)"
        using True by (simp add: 3 m1[symmetric] m2[symmetric] ac_simps)
      ultimately show ?thesis by blast
    next
      case nd: False
      show ?thesis
      proof (cases "?tag \<in> SAFE_ELEMENTS")
        case False
        let ?Eo = "Element i tn a []"
        let ?A = "setChildren p (pre @ cs @ rest @ post) st"
        let ?st1 = "?A @ [?Eo]"
        have s1: "sanitizeElement st i = Some (Inr ?st1)"
          using sanitizeElement_unwrap[OF fi nd False] unwrapElement_child[OF d ch'] by simp
        have "mset (idsl (pre @ cs @ rest @ post)) + mset (idsl [?Eo]) = mset (idsl (pre @ ?E # rest @ post))"
          by simp
        from distinct_state[OF d ch' this] have d1: "distinct (idsl ?st1)" .
        have chA: "childNodes ?A p = Some (pre @ (cs @ rest) @ post)"
          using childNodes_setChildren[OF ch'] by simp
        then have chp1: "childNodes ?st1 p = Some (pre @ (cs @ rest) @ post)"
          by (rule childNodes_append_left)
        have "length (idsl (cs @ rest)) < length (idsl ns)" by (simp add: 3)
        from less.hyps[OF this d1 chp1] obtain D1 where
          w1: "forEachNode (elemsl (cs @ rest)) ?st1 =
                 Some (Inr (setChildren p (pre @ clean (cs @ rest) @ post) ?st1 @ D1))"
          and m1: "mset (idsl (clean (cs @ rest))) + mset (idsl D1) = mset (idsl (cs @ rest))"
          by auto
        have "setChildren p (pre @ clean (cs @ rest) @ post) ?st1
            = setChildren p (pre @ clean (cs @ rest) @ post) st @ [?Eo]"
          using setChildren_detached[OF d1 chA] by (simp add: setChildren_setChildren)
        with w1 have w1': "forEachNode (elemsl cs @ elemsl rest) ?st1 =
            Some (Inr (setChildren p (pre @ clean ns @ post) st @ ([?Eo] @ D1)))"
          using nd False by (simp add: 3 clean_append)
        have "forEachNode (elemsl ns) st =
            Some (Inr (setChildren p (pre @ clean ns @ post) st @ ([?Eo] @ D1)))"
          using s1 w1' unfolding el by simp
        moreover have "mset (idsl (clean ns)) + mset (idsl ([?Eo] @ D1)) = mset (idsl ns)"
          using m1 nd False by (simp add: 3 clean_append)
        ultimately show ?thesis by blast
      next
        case True
        let ?a' = "cleanAttrs tn a"
        let ?E1 = "Element i tn ?a' cs"
        let ?E2 = "Element i tn ?a' (clean cs)"
        let ?st1 = "setChildren p (pre @ ?E1 # rest @ post) st"
        have s1: "sanitizeElement st i = Some (Inr ?st1)"
          using sanitizeElement_keep[OF d ch' True] .
        have "mset (idsl (pre @ ?E1 # rest @ post)) + mset (idsl []) = mset (idsl (pre @ ?E # rest @ post))"
          by simp
        from distinct_state[OF d ch' this] have d1: "distinct (idsl ?st1)" by simp
        have chp1: "childNodes ?st1 p = Some (pre @ ?E1 # rest @ post)"
          using ch' by (rule childNodes_setChildren)
        have "findNode i ?st1 = Some ?E1" using child_found[OF d1 chp1, of ?E1] by simp
        then have chi: "childNodes ?st1 i = Some ([] @ cs @ [])" by (simp add: childNodes_def)
        from less.hyps[OF lcs d1 chi] obtain D1 where
          w1: "forEachNode (elemsl cs) ?st1 = Some (Inr (setChildren i (clean cs) ?st1 @ D1))"
          and m1: "mset (idsl (clean cs)) + mset (idsl D1) = mset (idsl cs)"
          by auto
        let ?B = "setChildren p (pre @ ?E2 # rest @ post) st"
        let ?st2 = "?B @ D1"
        have "setChildren i (clean cs) ?st1 = ?B"
          using modify_via_parent[OF d1 chp1, of "withChildren (clean cs)"]
          by (simp add: setChildren_def[symmetric] setChildren_setChildren)
        with w1 have w1': "forEachNode (elemsl cs) ?st1 = Some (Inr ?st2)" by simp
        have "mset (idsl (pre @ ?E2 # rest @ post)) + mset (idsl D1) = mset (idsl (pre @ ?E # rest @ post))"
          using m1 by simp
        from distinct_state[OF d ch' this] have d2: "distinct (idsl ?st2)" .
        have chB: "childNodes ?B p = Some ((pre @ [?E2]) @ rest @ post)"
          using childNodes_setChildren[OF ch'] by simp
        then have chp2: "childNodes ?st2 p = Some ((pre @ [?E2]) @ rest @ post)"
          by (rule childNodes_append_left)
        from less.hyps[OF lrest d2 chp2] obtain D2 where
          w2: "forEachNode (elemsl rest) ?st2 =
                 Some (Inr (setChildren p ((pre @ [?E2]) @ clean rest @ post) ?st2 @ D2))"
          and m2: "mset (idsl (clean rest)) + mset (idsl D2) = mset (idsl rest)"
          by auto
        have "setChildren p ((pre @ [?E2]) @ clean rest @ post) ?st2
            = setChildren p (pre @ clean ns @ post) st @ D1"
          using setChildren_detached[OF d2 chB] nd True
          by (simp add: setChildren_setChildren 3)
        with w2 have w2': "forEachNode (elemsl rest) ?st2 =
            Some (Inr (setChildren p (pre @ clean ns @ post) st @ (D1 @ D2)))"
          by simp
        have "forEachNode (elemsl ns) st =
            Some (Inr (setChildren p (pre @ clean ns @ post) st @ (D1 @ D2)))"
          using s1 w1' w2' unfolding el by (simp add: forEachNode_append)
        moreover have "mset (idsl (clean ns)) + mset (idsl (D1 @ D2)) = mset (idsl ns)"
          using nd True by (simp add: 3 m1[symmetric] m2[symmetric] ac_simps)
        ultimately show ?thesis by blast
      qed
    qed
  qed
qed

section \<open>The attribute filter on attribute lists\<close>

lemma lowerChar_idem: "lowerChar (lowerChar c) = lowerChar c"
  unfolding lowerChar_def codeUnit_def
  by auto

lemma toLowerCase_idem [simp]: "toLowerCase (toLowerCase s) = toLowerCase s"
  by (simp add: toLowerCase_def lowerChar_idem)

lemma lowerChar_asciiLowerChar: "lowerChar (asciiLowerChar c) = lowerChar c"
  unfolding lowerChar_def asciiLowerChar_def codeUnit_def
  by auto

lemma toLowerCase_asciiLowerCase [simp]: "toLowerCase (asciiLowerCase s) = toLowerCase s"
  by (simp add: toLowerCase_def asciiLowerCase_def lowerChar_asciiLowerChar)

lemma toLowerCase_qualifiedName [simp]: "toLowerCase (qualifiedName e n) = toLowerCase n"
  by (simp add: qualifiedName_def)

lemma removeAttr_filter:
  "distinct (map fst a) \<Longrightarrow> removeAttr qn a = filter (\<lambda>av. fst av \<noteq> qn) a"
proof (induction a)
  case Nil
  then show ?case by simp
next
  case (Cons x a)
  obtain n v where x: "x = (n, v)" by (cases x)
  show ?case
  proof (cases "n = qn")
    case True
    with Cons.prems x have "\<And>av. av \<in> set a \<Longrightarrow> fst av \<noteq> qn" by auto
    then have "filter (\<lambda>av. fst av \<noteq> qn) a = a" by (simp add: filter_id_conv)
    with True x show ?thesis by simp
  next
    case False
    with Cons x show ?thesis by simp
  qed
qed

lemma attrFold_filter:
  "distinct (map fst cur) \<Longrightarrow>
   attrFold tag e snap cur =
     filter (\<lambda>av. fst av \<notin> (\<lambda>x. qualifiedName e (fst x)) ` {x \<in> set snap. \<not> keepsAttr tag x}) cur"
proof (induction snap arbitrary: cur)
  case Nil
  then show ?case by simp
next
  case (Cons x snap)
  show ?case
  proof (cases "keepsAttr tag x")
    case True
    then have "{y \<in> set (x # snap). \<not> keepsAttr tag y} = {y \<in> set snap. \<not> keepsAttr tag y}"
      by auto
    with True Cons show ?thesis by simp
  next
    case False
    then have s: "{y \<in> set (x # snap). \<not> keepsAttr tag y} = insert x {y \<in> set snap. \<not> keepsAttr tag y}"
      by auto
    have d: "distinct (map fst (filter (\<lambda>av. fst av \<noteq> qualifiedName e (fst x)) cur))"
      using Cons.prems by (simp add: distinct_map_filter)
    show ?thesis
      using False Cons.IH[OF d] Cons.prems
      by (simp add: removeAttr_filter s) (rule filter_cong, auto)
  qed
qed

lemma distinct_attrFold: "distinct (map fst cur) \<Longrightarrow> distinct (map fst (attrFold tag e snap cur))"
  by (simp add: attrFold_filter distinct_map_filter)

lemma wfAttrs_names: "wfAttrs e a \<Longrightarrow> av \<in> set a \<Longrightarrow> qualifiedName e (fst av) = fst av"
  by (auto simp: wfAttrs_def qualifiedName_def list_all_iff)

lemma attrFold_wf:
  assumes "wfAttrs e a"
  shows "attrFold tag e a a = filter (keepsAttr tag) a"
proof -
  from assms have d: "distinct (map fst a)" by (simp add: wfAttrs_def)
  note l = wfAttrs_names[OF assms]
  have "filter (\<lambda>av. fst av \<notin> (\<lambda>x. qualifiedName e (fst x)) ` {x \<in> set a. \<not> keepsAttr tag x}) a
      = filter (keepsAttr tag) a"
  proof (rule filter_cong[OF refl])
    fix av assume av: "av \<in> set a"
    show "(fst av \<notin> (\<lambda>x. qualifiedName e (fst x)) ` {x \<in> set a. \<not> keepsAttr tag x}) = keepsAttr tag av"
    proof
      assume n: "fst av \<notin> (\<lambda>x. qualifiedName e (fst x)) ` {x \<in> set a. \<not> keepsAttr tag x}"
      show "keepsAttr tag av"
      proof (rule ccontr)
        assume "\<not> keepsAttr tag av"
        with av l[OF av] have "fst av \<in> (\<lambda>x. qualifiedName e (fst x)) ` {x \<in> set a. \<not> keepsAttr tag x}"
          by (metis (mono_tags, lifting) image_eqI mem_Collect_eq)
        with n show False by simp
      qed
    next
      assume k: "keepsAttr tag av"
      show "fst av \<notin> (\<lambda>x. qualifiedName e (fst x)) ` {x \<in> set a. \<not> keepsAttr tag x}"
      proof
        assume "fst av \<in> (\<lambda>x. qualifiedName e (fst x)) ` {x \<in> set a. \<not> keepsAttr tag x}"
        then obtain x where x: "x \<in> set a" "\<not> keepsAttr tag x" "fst av = qualifiedName e (fst x)" by auto
        with l[OF x(1)] have "fst x = fst av" by simp
        with d x(1) av have "x = av"
          using eq_key_imp_eq_value[of a "fst av" "snd x" "snd av"]
          by (metis prod.collapse)
        with k x(2) show False by simp
      qed
    qed
  qed
  with attrFold_filter[OF d, of tag e a] show ?thesis by simp
qed

lemma isAllowedAttr_True:
  "isAllowedAttr tag n = Inr True \<Longrightarrow>
     \<not> startsWith (toLowerCase n) ''on'' \<and> toLowerCase n \<noteq> ''style''"
  by (auto simp: isAllowedAttr_def Let_def split: if_splits)

lemma isAllowedAttr_lower [simp]: "isAllowedAttr tag (toLowerCase n) = isAllowedAttr tag n"
  by (simp add: isAllowedAttr_def)

lemma isAllowedAttr_spec:
  assumes "tag \<notin> OBJECT_PROTOTYPE"
  shows "isAllowedAttr tag name = Inr (isAllowedAttribute_spec tag name)"
  using assms
  by (simp add: isAllowedAttr_def isAllowedAttribute_spec_def TAG_ATTRS_def TagAttributes_def Let_def)

lemma safe_not_prototype: "tag \<in> SAFE_ELEMENTS \<Longrightarrow> tag \<notin> OBJECT_PROTOTYPE"
  unfolding SAFE_ELEMENTS_def OBJECT_PROTOTYPE_def
  by (elim insertE emptyE; simp)

lemma keepsAttr_permitted:
  assumes "keepsAttr tag av" "tag \<notin> OBJECT_PROTOTYPE"
  shows "attrPermitted tag av"
proof -
  from assms(1) have a: "isAllowedAttr tag (fst av) = Inr True"
    and u: "\<not> ((toLowerCase (fst av) = ''href'' \<or> toLowerCase (fst av) = ''src'') \<and>
              \<not> isSafeUrl (Some (snd av)))"
    by (simp_all add: keepsAttr_def Let_def)
  from a isAllowedAttr_spec[OF assms(2), of "fst av"] have "isAllowedAttribute_spec tag (fst av)"
    by simp
  with isAllowedAttr_True[OF a] u show ?thesis by (auto simp: attrPermitted_def)
qed

lemma set_setAttr: "set (setAttr qn v a) \<subseteq> insert (qn, v) (set a)"
  by (induction a) (auto split: if_splits)

lemma rel_permitted: "attrPermitted ''a'' (''rel'', v)"
  unfolding attrPermitted_def
  by (simp add: isAllowedAttribute_spec_def TagAttributes_def GLOBAL_ATTRS_def startsWith_def Let_def)

lemma cleanAttrs_permitted:
  assumes "wfAttrs e a" "tagOf e \<in> SAFE_ELEMENTS"
  shows "list_all (attrPermitted (tagOf e)) (cleanAttrs e a)"
proof -
  let ?tag = "tagOf e"
  note p = safe_not_prototype[OF assms(2)]
  have f: "list_all (attrPermitted ?tag) (filter (keepsAttr ?tag) a)"
    using p by (auto simp: list_all_iff intro: keepsAttr_permitted)
  show ?thesis
  proof (cases "?tag = ''a'' \<and> map_of (filter (keepsAttr ?tag) a) ''target'' = Some ''_blank''")
    case True
    let ?v = "join '' '' (relTokens (map_of (filter (keepsAttr ?tag) a) ''rel''))"
    have "set (setAttr ''rel'' ?v (filter (keepsAttr ?tag) a))
        \<subseteq> insert (''rel'', ?v) (set (filter (keepsAttr ?tag) a))"
      by (rule set_setAttr)
    moreover have "attrPermitted ?tag (''rel'', ?v)" using True rel_permitted by simp
    ultimately have "list_all (attrPermitted ?tag) (setAttr ''rel'' ?v (filter (keepsAttr ?tag) a))"
      using f unfolding list_all_iff by blast
    moreover have "cleanAttrs e a = setAttr ''rel'' ?v (filter (keepsAttr ?tag) a)"
      by (simp only: cleanAttrs_def hardenAttrs_def attrFold_wf[OF assms(1)] if_P[OF True])
    ultimately show ?thesis by simp
  next
    case False
    have "cleanAttrs e a = filter (keepsAttr ?tag) a"
      by (simp only: cleanAttrs_def hardenAttrs_def attrFold_wf[OF assms(1)] if_not_P[OF False])
    with f show ?thesis by simp
  qed
qed

lemma clean_permitted:
  "keptAll wfAttrs ns \<Longrightarrow> list_all nodePermitted (subnodes (clean ns))"
  by (induction ns rule: clean.induct)
    (auto simp: cleanAttrs_permitted clean_append split: if_splits)

lemma clean_tagPermitted: "list_all tagPermitted (subnodes (clean ns))"
  by (induction ns rule: clean.induct) (auto simp: clean_append)

lemma walkAndSanitize_clean:
  assumes "distinct (idsl st)" "childNodes st root = Some ks"
  shows "\<exists>st'. walkAndSanitize st root = Some (Inr st') \<and> childNodes st' root = Some (clean ks) \<and>
           distinct (idsl st')"
proof -
  have ch: "childNodes st root = Some ([] @ ks @ [])" using assms(2) by simp
  from walk_clean[OF assms(1) ch] obtain D where
    w: "forEachNode (elemsl ks) st = Some (Inr (setChildren root (clean ks) st @ D))"
    and m: "mset (idsl (clean ks)) + mset (idsl D) = mset (idsl ks)" by auto
  have "childNodes (setChildren root (clean ks) st @ D) root = Some (clean ks)"
    using childNodes_setChildren[OF assms(2)] by (rule childNodes_append_left)
  moreover have "distinct (idsl (setChildren root (clean ks) st @ D))"
    using distinct_state[OF assms m] .
  ultimately show ?thesis
    using w assms(2) by (simp add: walkAndSanitize_def querySelectorAll_def)
qed

section \<open>Properties of the walk\<close>

text \<open>
  C2, as amended. Let the nodes of the state have distinct identities, and let every
  element below the root that the walk keeps (a safe tag, inside no always-dropped
  element) have the attribute list of the data model: no two attributes with the same
  qualified name and, on an HTML element, no ASCII capital in a name. Then the walk over
  the root returns without error, and every element below the root afterwards has a tag
  of \<open>SAFE_ELEMENTS\<close>, and every attribute of such an element is allowed by the global or
  the tag's table, has a name that in lowercase neither starts with \<^verbatim>\<open>on\<close> nor is
  \<^verbatim>\<open>style\<close>, and, when its name in lowercase is \<^verbatim>\<open>href\<close> or \<^verbatim>\<open>src\<close>, has a value
  that \<open>isSafeUrl\<close> accepts.
\<close>

theorem walk_leaves_permitted:
  assumes "distinct (idsl st)" "childNodes st root = Some ks" "keptAll wfAttrs ks"
  shows "\<exists>st' ks'. walkAndSanitize st root = Some (Inr st') \<and> childNodes st' root = Some ks' \<and>
           list_all nodePermitted (subnodes ks')"
proof -
  from assms(3) have "list_all nodePermitted (subnodes (clean ks))" by (rule clean_permitted)
  with walkAndSanitize_clean[OF assms(1,2)] show ?thesis by blast
qed

theorem walk_leaves_permitted_witness:
  "distinct (idsl exampleTrees) \<and> childNodes exampleTrees 2 = Some exampleBody \<and>
   keptAll wfAttrs exampleBody \<and>
   (\<exists>st' ks'. walkAndSanitize exampleTrees 2 = Some (Inr st') \<and> childNodes st' 2 = Some ks' \<and>
      list_all nodePermitted (subnodes ks'))"
proof -
  have h: "distinct (idsl exampleTrees)" "childNodes exampleTrees 2 = Some exampleBody"
    "keptAll wfAttrs exampleBody"
    by code_simp+
  from walk_leaves_permitted[OF h] h show ?thesis by simp
qed

text \<open>
  C2 as the claim states it, for every input, fails on a document that has not the
  attribute lists of the data model. The classifier removes an attribute through
  \<^verbatim>\<open>removeAttribute(attr.name)\<close>, which removes the first attribute of that name in
  ASCII lowercase: of two attributes named \<^verbatim>\<open>href\<close> it removes the first, harmless one
  for the second, and it finds no attribute \<^verbatim>\<open>onclick\<close> to remove for an attribute
  named \<^verbatim>\<open>ONCLICK\<close>. After the walk the anchor has a \<^verbatim>\<open>javascript:\<close> address and the
  paragraph its event handler.
\<close>

theorem walk_leaves_permitted_counterexample:
  "map_option (map_sum id (\<lambda>st. childNodes st 2))
     (walkAndSanitize (trees (htmlDocument exampleDuplicate)) 2) =
     Some (Inr (Some
       [Element 3 (htmlElement ''A'') [(''href'', ''javascript:alert(1)'')]
          [Leaf 4 (TextData ''t'')]])) \<and>
   \<not> list_all nodePermitted
       (subnodes [Element 3 (htmlElement ''A'') [(''href'', ''javascript:alert(1)'')]
                    [Leaf 4 (TextData ''t'')]]) \<and>
   map_option (map_sum id (\<lambda>st. childNodes st 2))
     (walkAndSanitize (trees (htmlDocument exampleUpper)) 2) = Some (Inr (Some exampleUpper)) \<and>
   \<not> list_all nodePermitted (subnodes exampleUpper)"
  by code_simp

section \<open>Properties of the attribute filter and the link hardener\<close>

lemma map_of_removeAttr: "k \<noteq> qn \<Longrightarrow> map_of (removeAttr qn a) k = map_of a k"
  by (induction a) auto

lemma set_removeAttr: "set (removeAttr qn a) \<subseteq> set a"
  by (induction a) (auto split: if_splits)

lemma set_attrFold: "set (attrFold tag e snap cur) \<subseteq> set cur"
proof (induction snap arbitrary: cur)
  case Nil
  then show ?case by simp
next
  case (Cons x snap)
  show ?case
    using Cons[of cur] Cons[of "removeAttr (qualifiedName e (fst x)) cur"]
      set_removeAttr[of "qualifiedName e (fst x)" cur]
    by (cases "keepsAttr tag x") auto
qed

lemma keepsAttr_target: "toLowerCase (fst x) = ''target'' \<Longrightarrow> keepsAttr ''a'' x"
  by (simp add: keepsAttr_def isAllowedAttr_def Let_def startsWith_def GLOBAL_ATTRS_def TAG_ATTRS_def)

lemma map_of_attrFold_target: "map_of (attrFold ''a'' e snap cur) ''target'' = map_of cur ''target''"
proof (induction snap arbitrary: cur)
  case Nil
  then show ?case by simp
next
  case (Cons x snap)
  show ?case
  proof (cases "keepsAttr ''a'' x")
    case True
    with Cons show ?thesis by simp
  next
    case False
    with keepsAttr_target[of x] have n: "toLowerCase (fst x) \<noteq> ''target''" by auto
    have "''target'' \<noteq> qualifiedName e (fst x)"
    proof
      assume "''target'' = qualifiedName e (fst x)"
      then have "toLowerCase ''target'' = toLowerCase (qualifiedName e (fst x))" by (rule arg_cong)
      then have "toLowerCase (fst x) = ''target''" by simp
      with n show False by simp
    qed
    with False Cons show ?thesis by (simp add: map_of_removeAttr)
  qed
qed

lemma cleanAttrs_origin:
  assumes "av \<in> set (cleanAttrs e a)"
  shows "av \<in> set a \<or> (fst av = ''rel'' \<and> tagOf e = ''a'' \<and> map_of a ''target'' = Some ''_blank'')"
proof (cases "tagOf e = ''a'' \<and> map_of (attrFold (tagOf e) e a a) ''target'' = Some ''_blank''")
  case True
  let ?v = "join '' '' (relTokens (map_of (attrFold (tagOf e) e a a) ''rel''))"
  from True have t: "map_of a ''target'' = Some ''_blank''"
    using map_of_attrFold_target[of e a a] by auto
  have "cleanAttrs e a = setAttr ''rel'' ?v (attrFold (tagOf e) e a a)"
    by (simp only: cleanAttrs_def hardenAttrs_def if_P[OF True])
  with assms set_setAttr[of "''rel''" ?v "attrFold (tagOf e) e a a"] set_attrFold[of "tagOf e" e a a]
  have "av = (''rel'', ?v) \<or> av \<in> set a" by auto
  with True t show ?thesis by auto
next
  case False
  have "cleanAttrs e a = attrFold (tagOf e) e a a"
    by (simp only: cleanAttrs_def hardenAttrs_def if_not_P[OF False])
  with assms set_attrFold[of "tagOf e" e a a] show ?thesis by auto
qed

lemma set_fold_setAdd: "set (fold setAdd xs acc) = set acc \<union> set xs"
  by (induction xs arbitrary: acc) (auto simp: setAdd_def)

lemma distinct_fold_setAdd: "distinct acc \<Longrightarrow> distinct (fold setAdd xs acc)"
  by (induction xs arbitrary: acc) (auto simp: setAdd_def)

lemma set_newSet [simp]: "set (newSet xs) = set xs"
  by (simp add: newSet_def set_fold_setAdd)

lemma distinct_newSet [simp]: "distinct (newSet xs)"
  by (simp add: newSet_def distinct_fold_setAdd)

lemma fold_setAdd_distinct: "distinct xs \<Longrightarrow> fold setAdd xs acc = acc @ filter (\<lambda>t. t \<notin> set acc) xs"
  by (induction xs arbitrary: acc) (auto simp: setAdd_def intro: filter_cong)

lemma newSet_distinct: "distinct xs \<Longrightarrow> newSet xs = xs"
  by (simp add: newSet_def fold_setAdd_distinct)

lemma relTokens_spec_eq: "relTokens r = relTokens_spec (map_option toLowerCase r)"
proof -
  have n: "newSet [''noopener'', ''noreferrer''] = [''noopener'', ''noreferrer'']"
    by (simp add: newSet_distinct)
  have l: "toLowerCase (case r of None \<Rightarrow> [] | Some v \<Rightarrow> v)
      = (case map_option toLowerCase r of None \<Rightarrow> [] | Some v \<Rightarrow> v)"
    by (cases r) (simp_all add: toLowerCase_def)
  show ?thesis
    unfolding relTokens_def relTokens_spec_def n l Let_def
    by (rule fold_setAdd_distinct) simp
qed

lemma splitWs_nonempty: "splitWs s \<noteq> []"
  by (induction s rule: splitWs.induct) (auto split: list.splits)

lemma splitWs_free: "p \<in> set (splitWs s) \<Longrightarrow> c \<in> set p \<Longrightarrow> \<not> isWhiteSpace c \<and> c \<in> set s"
proof (induction s arbitrary: p rule: splitWs.induct)
  case 1
  then show ?case by simp
next
  case (2 x xs)
  show ?case
  proof (cases "isWhiteSpace x")
    case True
    with 2(3,4) have "p \<in> set (splitWs (dropWhile isWhiteSpace xs))" by auto
    from 2(1)[OF True this 2(4)] show ?thesis
      using set_dropWhileD[of c isWhiteSpace xs] by auto
  next
    case False
    from splitWs_nonempty[of xs] obtain q qs where q: "splitWs xs = q # qs"
      by (cases "splitWs xs") auto
    with False 2(3) have "p = x # q \<or> p \<in> set qs" by auto
    then show ?thesis
    proof
      assume "p = x # q"
      with 2(4) have "c = x \<or> c \<in> set q" by auto
      then show ?thesis using False 2(2)[OF False, of q] q by auto
    next
      assume "p \<in> set qs"
      then show ?thesis using 2(2)[OF False, of p] 2(4) q by auto
    qed
  qed
qed

lemma splitWs_word: "\<forall>c \<in> set x. \<not> isWhiteSpace c \<Longrightarrow> splitWs x = [x]"
  by (induction x) auto

lemma splitWs_word_sep:
  "\<forall>c \<in> set x. \<not> isWhiteSpace c \<Longrightarrow> isWhiteSpace w \<Longrightarrow>
     splitWs (x @ w # s) = x # splitWs (dropWhile isWhiteSpace s)"
  by (induction x) auto

lemma space_isWhiteSpace: "isWhiteSpace CHR '' ''"
  by code_simp

lemma tokens_join:
  "list_all token ts \<Longrightarrow> filter (\<lambda>s. s \<noteq> []) (splitWs (join '' '' ts)) = ts"
proof (induction ts rule: induct_list012)
  case 1
  then show ?case by simp
next
  case (2 x)
  then show ?case by (simp add: token_def splitWs_word)
next
  case (3 x y ys)
  from 3(3) have x: "x \<noteq> []" "\<forall>c \<in> set x. \<not> isWhiteSpace c"
    and y: "y \<noteq> []" "\<forall>c \<in> set y. \<not> isWhiteSpace c"
    by (auto simp: token_def)
  from 3(3) have rest: "list_all token (y # ys)" by simp
  obtain y0 y' where yy: "y = y0 # y'" using y(1) by (cases y) auto
  then have "join '' '' (y # ys) = y0 # (y' @ (case ys of [] \<Rightarrow> [] | _ \<Rightarrow> '' '' @ join '' '' ys))"
    by (cases ys) auto
  moreover have "\<not> isWhiteSpace y0" using y(2) yy by simp
  ultimately have dw: "dropWhile isWhiteSpace (join '' '' (y # ys)) = join '' '' (y # ys)"
    by simp
  have "splitWs (join '' '' (x # y # ys)) = x # splitWs (join '' '' (y # ys))"
    using splitWs_word_sep[OF x(2) space_isWhiteSpace, of "join '' '' (y # ys)"] dw by simp
  with 3(2)[OF rest] x(1) show ?case by simp
qed

lemma tokens_are_tokens: "list_all token (filter (\<lambda>s. s \<noteq> []) (splitWs s))"
  using splitWs_free[of _ s] by (auto simp: list_all_iff token_def)

lemma token_noopener: "token ''noopener''" "token ''noreferrer''"
  by (simp_all add: token_def isWhiteSpace_def codeUnit_def)

lemma relTokens_spec_tokens: "list_all token (relTokens_spec r)"
  using tokens_are_tokens[of "case r of None \<Rightarrow> [] | Some v \<Rightarrow> v"] token_noopener
  by (auto simp: relTokens_spec_def Let_def list_all_iff)

lemma set_hardenAttrs:
  assumes "x \<in> set (hardenAttrs tag b)"
  shows "x \<in> set b \<or> fst x = ''rel''"
proof (cases "tag = ''a'' \<and> map_of b ''target'' = Some ''_blank''")
  case True
  let ?v = "join '' '' (relTokens (map_of b ''rel''))"
  have "hardenAttrs tag b = setAttr ''rel'' ?v b"
    by (simp only: hardenAttrs_def if_P[OF True])
  with assms set_setAttr[of "''rel''" ?v b] show ?thesis by auto
next
  case False
  have "hardenAttrs tag b = b" by (simp only: hardenAttrs_def if_not_P[OF False])
  with assms show ?thesis by simp
qed

lemma cleanAttrs_not_rel:
  assumes "av \<in> set (cleanAttrs e a)" "fst av \<noteq> ''rel''"
  shows "av \<in> set a"
  using cleanAttrs_origin[OF assms(1)] assms(2) by blast

lemma toLowerCase_href: "toLowerCase ''href'' = ''href''" "toLowerCase ''src'' = ''src''"
  by code_simp+

lemma unsafe_url_removed:
  assumes "distinct (map fst a)" "av \<in> set a" "fst av = ''href'' \<or> fst av = ''src''"
    "\<not> isSafeUrl (Some (snd av))"
  shows "fst av \<notin> fst ` set (cleanAttrs e a)"
proof
  assume "fst av \<in> fst ` set (cleanAttrs e a)"
  then obtain x where x: "x \<in> set (cleanAttrs e a)" "fst x = fst av" by auto
  let ?tag = "tagOf e"
  from assms(3,4) have nk: "\<not> keepsAttr ?tag av"
    by (auto simp: keepsAttr_def Let_def toLowerCase_href)
  from assms(3) have q: "qualifiedName e (fst av) = fst av" by auto
  from x(1) have "x \<in> set (attrFold ?tag e a a) \<or> fst x = ''rel''"
    unfolding cleanAttrs_def by (rule set_hardenAttrs)
  with x(2) assms(3) have "x \<in> set (attrFold ?tag e a a)" by auto
  then have "fst x \<notin> (\<lambda>y. qualifiedName e (fst y)) ` {y \<in> set a. \<not> keepsAttr ?tag y}"
    by (simp add: attrFold_filter[OF assms(1)])
  moreover have "fst av \<in> (\<lambda>y. qualifiedName e (fst y)) ` {y \<in> set a. \<not> keepsAttr ?tag y}"
    using assms(2) nk q by (metis (mono_tags, lifting) image_eqI mem_Collect_eq)
  ultimately show False using x(2) by simp
qed

text \<open>
  C10. Where the classifier keeps an element (its tag is in \<open>SAFE_ELEMENTS\<close>), it returns
  without error, the element keeps its tag and children, and every attribute it then has
  is an attribute it had before, name and value, with one exception: an attribute named
  \<^verbatim>\<open>rel\<close> on an anchor whose \<^verbatim>\<open>target\<close> is \<^verbatim>\<open>_blank\<close>.
\<close>

theorem kept_attributes_unchanged:
  assumes "findNode el st = Some (Element el tn a cs)" "tagOf tn \<in> SAFE_ELEMENTS"
  shows "\<exists>st' a'. sanitizeElement st el = Some (Inr st') \<and>
           findNode el st' = Some (Element el tn a' cs) \<and>
           (\<forall>av \<in> set a'. av \<in> set a \<or>
              (fst av = ''rel'' \<and> tagOf tn = ''a'' \<and> map_of a ''target'' = Some ''_blank''))"
  using sanitizeElement_keep_find[OF assms] cleanAttrs_origin[of _ tn a]
  by blast



theorem kept_attributes_unchanged_witness:
  "findNode 11 exampleTrees =
     Some (Element 11 (htmlElement ''A'') exampleAttrs [Leaf 12 (TextData ''x'')]) \<and>
   tagOf (htmlElement ''A'') \<in> SAFE_ELEMENTS \<and>
   (\<exists>st' a'. sanitizeElement exampleTrees 11 = Some (Inr st') \<and>
      findNode 11 st' = Some (Element 11 (htmlElement ''A'') a' [Leaf 12 (TextData ''x'')]) \<and>
      (\<forall>av \<in> set a'. av \<in> set exampleAttrs \<or>
         (fst av = ''rel'' \<and> tagOf (htmlElement ''A'') = ''a'' \<and>
          map_of exampleAttrs ''target'' = Some ''_blank'')))"
proof -
  have h: "findNode 11 exampleTrees =
      Some (Element 11 (htmlElement ''A'') exampleAttrs [Leaf 12 (TextData ''x'')])"
    "tagOf (htmlElement ''A'') \<in> SAFE_ELEMENTS"
    by code_simp+
  from kept_attributes_unchanged[OF h] h show ?thesis by blast
qed

text \<open>
  C6, as amended. On an element whose lowercased tag is \<^verbatim>\<open>a\<close> and whose \<^verbatim>\<open>target\<close> is
  \<^verbatim>\<open>_blank\<close> the hardener writes, as \<^verbatim>\<open>rel\<close>, the space-joined sequence that the
  specification describes, computed from the lowercased \<^verbatim>\<open>rel\<close> value (absent counts as
  empty): its tokens without duplicates in first-seen order, then \<^verbatim>\<open>noopener\<close> and
  \<^verbatim>\<open>noreferrer\<close>, in that order, where missing. The tokens of the written value are
  that sequence, it has no duplicates, it holds both required tokens and every token of
  the lowercased old value. On any other element the hardener changes nothing.
\<close>

theorem ensureSafeLinkAttrs_hardens:
  assumes "findNode el st = Some (Element el tn a cs)"
  shows "ensureSafeLinkAttrs st el =
           Inr (if tagOf tn = ''a'' \<and> map_of a ''target'' = Some ''_blank''
                then setAttribute st el ''rel''
                       (join '' '' (relTokens_spec (map_option toLowerCase (map_of a ''rel''))))
                else st) \<and>
         filter (\<lambda>s. s \<noteq> [])
           (splitWs (join '' '' (relTokens_spec (map_option toLowerCase (map_of a ''rel'')))))
           = relTokens_spec (map_option toLowerCase (map_of a ''rel'')) \<and>
         distinct (relTokens_spec (map_option toLowerCase (map_of a ''rel''))) \<and>
         ''noopener'' \<in> set (relTokens_spec (map_option toLowerCase (map_of a ''rel''))) \<and>
         ''noreferrer'' \<in> set (relTokens_spec (map_option toLowerCase (map_of a ''rel''))) \<and>
         set (filter (\<lambda>s. s \<noteq> [])
                (splitWs (toLowerCase (case map_of a ''rel'' of None \<Rightarrow> [] | Some v \<Rightarrow> v))))
           \<subseteq> set (relTokens_spec (map_option toLowerCase (map_of a ''rel'')))"
proof -
  let ?r = "map_option toLowerCase (map_of a ''rel'')"
  have l: "toLowerCase (case map_of a ''rel'' of None \<Rightarrow> [] | Some v \<Rightarrow> v)
      = (case ?r of None \<Rightarrow> [] | Some v \<Rightarrow> v)"
    by (cases "map_of a ''rel''") (simp_all add: toLowerCase_def)
  have "ensureSafeLinkAttrs st el =
           Inr (if tagOf tn = ''a'' \<and> map_of a ''target'' = Some ''_blank''
                then setAttribute st el ''rel'' (join '' '' (relTokens_spec ?r)) else st)"
    by (simp add: ensureSafeLinkAttrs_modify[OF assms] setAttribute_def relTokens_spec_eq)
  moreover have "filter (\<lambda>s. s \<noteq> []) (splitWs (join '' '' (relTokens_spec ?r))) = relTokens_spec ?r"
    using relTokens_spec_tokens by (rule tokens_join)
  moreover have "distinct (relTokens_spec ?r)"
    by (auto simp: relTokens_spec_def Let_def)
  moreover have "''noopener'' \<in> set (relTokens_spec ?r)" "''noreferrer'' \<in> set (relTokens_spec ?r)"
    by (auto simp: relTokens_spec_def Let_def)
  moreover have "set (filter (\<lambda>s. s \<noteq> [])
                (splitWs (toLowerCase (case map_of a ''rel'' of None \<Rightarrow> [] | Some v \<Rightarrow> v))))
           \<subseteq> set (relTokens_spec ?r)"
    unfolding l by (auto simp: relTokens_spec_def Let_def)
  ultimately show ?thesis by blast
qed

theorem ensureSafeLinkAttrs_hardens_witness:
  "findNode 1 exampleLink =
     Some (Element 1 (htmlElement ''A'') [(''target'', ''_blank''), (''rel'', ''NoFollow'')] []) \<and>
   ensureSafeLinkAttrs exampleLink 1 =
     Inr (setAttribute exampleLink 1 ''rel'' ''nofollow noopener noreferrer'')"
proof -
  have h: "findNode 1 exampleLink =
     Some (Element 1 (htmlElement ''A'') [(''target'', ''_blank''), (''rel'', ''NoFollow'')] [])"
    by code_simp
  have c: "tagOf (htmlElement ''A'') = ''a'' \<and>
      map_of [(''target'', ''_blank''), (''rel'', ''NoFollow'')] ''target'' = Some ''_blank''"
    by code_simp
  have v: "join '' '' (relTokens_spec (map_option toLowerCase
      (map_of [(''target'', ''_blank''), (''rel'', ''NoFollow'')] ''rel''))) = ''nofollow noopener noreferrer''"
    by code_simp
  from ensureSafeLinkAttrs_hardens[OF h] have
    "ensureSafeLinkAttrs exampleLink 1 =
       Inr (if tagOf (htmlElement ''A'') = ''a'' \<and>
               map_of [(''target'', ''_blank''), (''rel'', ''NoFollow'')] ''target'' = Some ''_blank''
            then setAttribute exampleLink 1 ''rel''
                   (join '' '' (relTokens_spec (map_option toLowerCase
                      (map_of [(''target'', ''_blank''), (''rel'', ''NoFollow'')] ''rel''))))
            else exampleLink)"
    by blast
  then have "ensureSafeLinkAttrs exampleLink 1 =
       Inr (setAttribute exampleLink 1 ''rel'' ''nofollow noopener noreferrer'')"
    by (simp only: if_P[OF c] v)
  with h show ?thesis by blast
qed

text \<open>
  C6 as the claim states it fails: the code lowercases the \<^verbatim>\<open>rel\<close> value before it
  splits it, so the token \<^verbatim>\<open>NoFollow\<close> is written back as \<^verbatim>\<open>nofollow\<close>, where the
  hardener of the specification keeps it as it was.
\<close>

theorem ensureSafeLinkAttrs_counterexample:
  "ensureSafeLinkAttrs exampleLink 1 =
     Inr [Element 1 (htmlElement ''A'')
            [(''target'', ''_blank''), (''rel'', ''nofollow noopener noreferrer'')] []] \<and>
   ensureSafeLinkAttrs_spec exampleLink 1 =
     [Element 1 (htmlElement ''A'')
        [(''target'', ''_blank''), (''rel'', ''NoFollow noopener noreferrer'')] []]"
  by code_simp


text \<open>
  C4, as amended. For every attribute name and every tag that is not the name of a
  property that \<^verbatim>\<open>TAG_ATTRS\<close> inherits from \<^verbatim>\<open>Object.prototype\<close> (no tag of
  \<open>SAFE_ELEMENTS\<close> is such a name, and the classifier passes no other tag),
  \<open>isAllowedAttr\<close> decides as the specification says: disallowed when the lowercased
  name starts with \<^verbatim>\<open>on\<close> or is \<^verbatim>\<open>style\<close>, else allowed when it is in the global
  allowlist, else allowed exactly when it is in the allowlist of the tag. And on a kept
  element no two attributes of which have the same qualified name, an attribute named
  \<^verbatim>\<open>href\<close> or \<^verbatim>\<open>src\<close> that passes the name check and whose value \<open>isSafeUrl\<close> rejects
  is gone after the classifier, and every \<^verbatim>\<open>href\<close> or \<^verbatim>\<open>src\<close> attribute that remains is
  an attribute the element had, with the value it had.
\<close>

theorem attribute_filter_decision:
  assumes "findNode el st = Some (Element el tn a cs)" "tagOf tn \<in> SAFE_ELEMENTS"
    "distinct (map fst a)"
  shows "(\<forall>tag name. tag \<notin> OBJECT_PROTOTYPE \<longrightarrow>
            isAllowedAttr tag name = Inr (isAllowedAttribute_spec tag name)) \<and>
         tagOf tn \<notin> OBJECT_PROTOTYPE \<and>
         (\<exists>st' a'. sanitizeElement st el = Some (Inr st') \<and>
            findNode el st' = Some (Element el tn a' cs) \<and>
            (\<forall>av \<in> set a. (fst av = ''href'' \<or> fst av = ''src'') \<and>
                 isAllowedAttr (tagOf tn) (fst av) = Inr True \<and> \<not> isSafeUrl (Some (snd av))
               \<longrightarrow> fst av \<notin> fst ` set a') \<and>
            (\<forall>av \<in> set a'. fst av = ''href'' \<or> fst av = ''src'' \<longrightarrow> av \<in> set a))"
proof -
  from sanitizeElement_keep_find[OF assms(1,2)] obtain st' where
    st': "sanitizeElement st el = Some (Inr st')"
      "findNode el st' = Some (Element el tn (cleanAttrs tn a) cs)" by blast
  have "\<forall>av \<in> set a. (fst av = ''href'' \<or> fst av = ''src'') \<and>
                 isAllowedAttr (tagOf tn) (fst av) = Inr True \<and> \<not> isSafeUrl (Some (snd av))
               \<longrightarrow> fst av \<notin> fst ` set (cleanAttrs tn a)"
    using unsafe_url_removed[OF assms(3)] by blast
  moreover have "\<forall>av \<in> set (cleanAttrs tn a). fst av = ''href'' \<or> fst av = ''src'' \<longrightarrow> av \<in> set a"
  proof (intro ballI impI)
    fix av assume "av \<in> set (cleanAttrs tn a)" "fst av = ''href'' \<or> fst av = ''src''"
    moreover from this(2) have "fst av \<noteq> ''rel''" by auto
    ultimately show "av \<in> set a" using cleanAttrs_not_rel by blast
  qed
  ultimately show ?thesis
    using st' isAllowedAttr_spec safe_not_prototype[OF assms(2)] by blast
qed

theorem attribute_filter_decision_witness:
  "findNode 11 exampleTrees =
     Some (Element 11 (htmlElement ''A'') exampleAttrs [Leaf 12 (TextData ''x'')]) \<and>
   tagOf (htmlElement ''A'') \<in> SAFE_ELEMENTS \<and> distinct (map fst exampleAttrs) \<and>
   tagOf (htmlElement ''A'') \<notin> OBJECT_PROTOTYPE \<and>
   isAllowedAttr (tagOf (htmlElement ''A'')) ''HREF'' =
     Inr (isAllowedAttribute_spec (tagOf (htmlElement ''A'')) ''HREF'') \<and>
   (\<exists>st' a'. sanitizeElement exampleTrees 11 = Some (Inr st') \<and>
      findNode 11 st' = Some (Element 11 (htmlElement ''A'') a' [Leaf 12 (TextData ''x'')]) \<and>
      ''href'' \<notin> fst ` set a')"
proof -
  have h: "findNode 11 exampleTrees =
      Some (Element 11 (htmlElement ''A'') exampleAttrs [Leaf 12 (TextData ''x'')])"
    "tagOf (htmlElement ''A'') \<in> SAFE_ELEMENTS" "distinct (map fst exampleAttrs)"
    by code_simp+
  have u: "(''href'', ''java script:alert(1)'') \<in> set exampleAttrs"
    "isAllowedAttr (tagOf (htmlElement ''A'')) ''href'' = Inr True"
    "\<not> isSafeUrl (Some ''java script:alert(1)'')"
    by code_simp+
  from attribute_filter_decision[OF h] obtain st' a' where
    d: "\<forall>tag name. tag \<notin> OBJECT_PROTOTYPE \<longrightarrow>
            isAllowedAttr tag name = Inr (isAllowedAttribute_spec tag name)"
    and p: "tagOf (htmlElement ''A'') \<notin> OBJECT_PROTOTYPE"
    and s: "sanitizeElement exampleTrees 11 = Some (Inr st')"
      "findNode 11 st' = Some (Element 11 (htmlElement ''A'') a' [Leaf 12 (TextData ''x'')])"
    and r: "\<forall>av \<in> set exampleAttrs. (fst av = ''href'' \<or> fst av = ''src'') \<and>
                 isAllowedAttr (tagOf (htmlElement ''A'')) (fst av) = Inr True \<and>
                 \<not> isSafeUrl (Some (snd av))
               \<longrightarrow> fst av \<notin> fst ` set a'"
    by blast
  from r u have "''href'' \<notin> fst ` set a'" by force
  with h d p s show ?thesis by blast
qed

text \<open>
  C4 as the claim states it, for every kept element, fails on an element with two
  attributes named \<^verbatim>\<open>href\<close> (a \<^verbatim>\<open>createDocument\<close> function can return one; no HTML
  parser builds one). The second passes the name check and \<open>isSafeUrl\<close> rejects its
  value, and \<^verbatim>\<open>removeAttribute("href")\<close> removes the first attribute of that name: after
  the classifier the element still has the attribute that was to be removed.
\<close>

theorem attribute_filter_counterexample:
  "isAllowedAttr ''a'' ''href'' = Inr True \<and> \<not> isSafeUrl (Some ''javascript:alert(1)'') \<and>
   sanitizeElement (trees (htmlDocument exampleDuplicate)) 3 =
     Some (Inr (trees (htmlDocument
       [Element 3 (htmlElement ''A'') [(''href'', ''javascript:alert(1)'')]
          [Leaf 4 (TextData ''t'')]])))"
  by code_simp

section \<open>Dropped, unwrapped and detached elements\<close>

lemma subnodes_ids: "n \<in> set (subnodes ns) \<Longrightarrow> set (idsl [n]) \<subseteq> set (idsl ns)"
  by (induction ns rule: subnodes.induct) auto

lemma clean_ids_subset: "set (idsl (clean ns)) \<subseteq> set (idsl ns)"
  by (induction ns rule: clean.induct) auto

lemma clean_unsafe_absent:
  assumes "distinct (idsl ns)" "Element i tn a ds \<in> set (subnodes ns)" "tagOf tn \<notin> SAFE_ELEMENTS"
  shows "i \<notin> set (idsl (clean ns))"
  using assms
proof (induction ns rule: idsl.induct[case_names Nil Leaf Elem])
  case Nil
  then show ?case by simp
next
  case (Leaf j d ns)
  from Leaf.prems(2) have m: "Element i tn a ds \<in> set (subnodes ns)" by simp
  with subnodes_ids[OF m] Leaf.prems(1) have "i \<noteq> j" by auto
  with Leaf m show ?case by simp
next
  case (Elem j t b cs ns)
  have sub: "set (idsl (clean cs)) \<subseteq> set (idsl cs)" "set (idsl (clean ns)) \<subseteq> set (idsl ns)"
    by (rule clean_ids_subset)+
  from Elem.prems(1) have d: "distinct (idsl cs)" "distinct (idsl ns)" by simp_all
  from Elem.prems(2) consider (here) "Element i tn a ds = Element j t b cs"
    | (inner) "Element i tn a ds \<in> set (subnodes cs)"
    | (rest) "Element i tn a ds \<in> set (subnodes ns)" by auto
  then show ?case
  proof cases
    case here
    with Elem.prems(1) have "i \<notin> set (idsl cs)" "i \<notin> set (idsl ns)" by auto
    with sub here Elem.prems(3) show ?thesis by auto
  next
    case inner
    from subnodes_ids[OF inner] have "i \<in> set (idsl cs)" by simp
    with Elem.prems(1) have "i \<noteq> j" "i \<notin> set (idsl ns)" by auto
    then show ?thesis using Elem.IH(1)[OF d(1) inner Elem.prems(3)] sub by auto
  next
    case rest
    from subnodes_ids[OF rest] have "i \<in> set (idsl ns)" by simp
    with Elem.prems(1) have "i \<noteq> j" "i \<notin> set (idsl cs)" by auto
    then show ?thesis using Elem.IH(2)[OF d(2) rest Elem.prems(3)] sub by auto
  qed
qed

lemma clean_drop_disjoint:
  assumes "distinct (idsl ns)" "Element i tn a ds \<in> set (subnodes ns)" "tagOf tn \<in> ALWAYS_DROP"
  shows "set (idsl [Element i tn a ds]) \<inter> set (idsl (clean ns)) = {}"
  using assms
proof (induction ns rule: idsl.induct[case_names Nil Leaf Elem])
  case Nil
  then show ?case by simp
next
  case (Leaf j d ns)
  from Leaf.prems(2) have m: "Element i tn a ds \<in> set (subnodes ns)" by simp
  with subnodes_ids[OF m] Leaf.prems(1) have "j \<notin> set (idsl [Element i tn a ds])" by auto
  with Leaf m show ?case by simp
next
  case (Elem j t b cs ns)
  let ?E = "Element i tn a ds"
  have sub: "set (idsl (clean cs)) \<subseteq> set (idsl cs)" "set (idsl (clean ns)) \<subseteq> set (idsl ns)"
    by (rule clean_ids_subset)+
  from Elem.prems(1) have d: "distinct (idsl cs)" "distinct (idsl ns)" by simp_all
  from Elem.prems(2) consider (here) "?E = Element j t b cs"
    | (inner) "?E \<in> set (subnodes cs)" | (rest) "?E \<in> set (subnodes ns)" by auto
  then show ?case
  proof cases
    case here
    with Elem.prems(1) have "set (idsl [?E]) \<inter> set (idsl ns) = {}" by auto
    with sub here Elem.prems(3) show ?thesis by auto
  next
    case inner
    from subnodes_ids[OF inner] have s: "set (idsl [?E]) \<subseteq> set (idsl cs)" .
    with Elem.prems(1) have "j \<notin> set (idsl [?E])" "set (idsl [?E]) \<inter> set (idsl ns) = {}" by auto
    then show ?thesis using Elem.IH(1)[OF d(1) inner Elem.prems(3)] sub by auto
  next
    case rest
    from subnodes_ids[OF rest] have s: "set (idsl [?E]) \<subseteq> set (idsl ns)" .
    with Elem.prems(1) have "j \<notin> set (idsl [?E])" "set (idsl [?E]) \<inter> set (idsl cs) = {}" by auto
    then show ?thesis using Elem.IH(2)[OF d(2) rest Elem.prems(3)] sub by auto
  qed
qed

lemma subnodes_parent:
  "n \<in> set (subnodes ns) \<Longrightarrow>
     n \<in> set ns \<or> (\<exists>j t a cs. Element j t a cs \<in> set (subnodes ns) \<and> n \<in> set cs)"
proof (induction ns rule: subnodes.induct[case_names Nil Leaf Elem])
  case Nil
  then show ?case by simp
next
  case (Leaf i d ns)
  then show ?case by auto
next
  case (Elem i t a cs ns)
  from Elem.prems consider "n = Element i t a cs" | "n \<in> set (subnodes cs)" | "n \<in> set (subnodes ns)"
    by auto
  then show ?case
  proof cases
    case 1
    then show ?thesis by simp
  next
    case 2
    from Elem.IH(1)[OF 2] show ?thesis
    proof
      assume "n \<in> set cs"
      then have "Element i t a cs \<in> set (subnodes (Element i t a cs # ns)) \<and> n \<in> set cs" by simp
      then show ?thesis by blast
    next
      assume "\<exists>j t a csa. Element j t a csa \<in> set (subnodes cs) \<and> n \<in> set csa"
      then obtain j t' a' c' where "Element j t' a' c' \<in> set (subnodes cs)" "n \<in> set c'" by blast
      then have "Element j t' a' c' \<in> set (subnodes (Element i t a cs # ns)) \<and> n \<in> set c'" by simp
      then show ?thesis by blast
    qed
  next
    case 3
    from Elem.IH(2)[OF 3] show ?thesis
    proof
      assume "n \<in> set ns"
      then show ?thesis by simp
    next
      assume "\<exists>j t a cs. Element j t a cs \<in> set (subnodes ns) \<and> n \<in> set cs"
      then obtain j t' a' c' where "Element j t' a' c' \<in> set (subnodes ns)" "n \<in> set c'" by blast
      then have "Element j t' a' c' \<in> set (subnodes (Element i t a cs # ns)) \<and> n \<in> set c'" by simp
      then show ?thesis by blast
    qed
  qed
qed

lemma distinct_subnode: "distinct (idsl ns) \<Longrightarrow> n \<in> set (subnodes ns) \<Longrightarrow> distinct (idsl [n])"
  by (induction ns rule: subnodes.induct) auto

lemma distinct_children:
  assumes "distinct (idsl st)" "childNodes st r = Some ks"
  shows "distinct (idsl ks)"
proof -
  from childNodes_subnodes[OF assms(2)] obtain rt ra where
    "Element r rt ra ks \<in> set (subnodes st)" by blast
  from distinct_subnode[OF assms(1) this] show ?thesis by simp
qed

lemma subnode_has_parent:
  assumes "distinct (idsl st)" "childNodes st root = Some ks" "n \<in> set (subnodes ks)"
  shows "\<exists>p pre post. childNodes st p = Some (pre @ n # post) \<and>
           (p = root \<or> (\<exists>t a. Element p t a (pre @ n # post) \<in> set (subnodes ks)))"
proof -
  from childNodes_subnodes[OF assms(2)] obtain rt ra where
    R: "Element root rt ra ks \<in> set (subnodes st)" by blast
  then have sub: "set (subnodes ks) \<subseteq> set (subnodes st)" by (rule subnodes_children)
  from subnodes_parent[OF assms(3)] show ?thesis
  proof
    assume "n \<in> set ks"
    then obtain pre post where "ks = pre @ n # post" by (auto dest: split_list)
    with assms(2) show ?thesis by blast
  next
    assume "\<exists>j t a cs. Element j t a cs \<in> set (subnodes ks) \<and> n \<in> set cs"
    then obtain j t a cs where P: "Element j t a cs \<in> set (subnodes ks)" "n \<in> set cs" by blast
    from P(2) obtain pre post where cs: "cs = pre @ n # post" by (auto dest: split_list)
    from P(1) sub have "Element j t a cs \<in> set (subnodes st)" by blast
    from findNode_unique[OF assms(1) this] have "childNodes st j = Some cs"
      by (simp add: childNodes_def)
    with cs P(1) show ?thesis by blast
  qed
qed

lemma subnode_after_setChildren:
  assumes "distinct (idsl st)" "childNodes st p = Some Y" "n \<in> set (subnodes st)"
    "p \<notin> set (idsl [n])"
  shows "n \<in> set (subnodes (setChildren p X st)) \<or> n \<in> set (subnodes Y)"
  using assms
proof (induction st rule: idsl.induct[case_names Nil Leaf Elem])
  case Nil
  then show ?case by simp
next
  case (Leaf j d ns)
  from Leaf.prems(2) have pj: "p \<noteq> j" and ch: "childNodes ns p = Some Y"
    by (auto simp: childNodes_Leaf split: if_splits)
  from Leaf.prems(1) have d: "distinct (idsl ns)" by simp
  from Leaf.prems(3) consider "n = Leaf j d" | "n \<in> set (subnodes ns)" by auto
  then show ?case
  proof cases
    case 1
    with pj show ?thesis by (simp add: setChildren_def)
  next
    case 2
    from Leaf.IH[OF d ch 2 Leaf.prems(4)] pj show ?thesis by (auto simp: setChildren_def)
  qed
next
  case (Elem j t a cs ns)
  from Elem.prems(1) have d: "distinct (idsl cs)" "distinct (idsl ns)" by simp_all
  from Elem.prems(3) consider (here) "n = Element j t a cs"
    | (inner) "n \<in> set (subnodes cs)" | (rest) "n \<in> set (subnodes ns)" by auto
  then show ?case
  proof cases
    case here
    with Elem.prems(4) have pj: "p \<noteq> j" and pcs: "p \<notin> set (idsl cs)" by auto
    then show ?thesis using here by (simp add: setChildren_def modify_absent)
  next
    case inner
    show ?thesis
    proof (cases "p = j")
      case True
      with Elem.prems(2) have "Y = cs" by (simp add: childNodes_Element)
      with inner show ?thesis by simp
    next
      case False
      show ?thesis
      proof (cases "p \<in> set (idsl cs)")
        case True
        with False Elem.prems(2) have ch: "childNodes cs p = Some Y" by (simp add: childNodes_Element)
        from Elem.IH(1)[OF d(1) ch inner Elem.prems(4)] False show ?thesis
          by (auto simp: setChildren_def)
      next
        case pcs: False
        with False inner show ?thesis by (simp add: setChildren_def modify_absent)
      qed
    qed
  next
    case rest
    show ?thesis
    proof (cases "p = j")
      case True
      with Elem.prems(1) have "p \<notin> set (idsl ns)" by auto
      with True rest show ?thesis by (simp add: setChildren_def modify_absent)
    next
      case False
      show ?thesis
      proof (cases "p \<in> set (idsl cs)")
        case True
        with Elem.prems(1) have "p \<notin> set (idsl ns)" by auto
        with False rest show ?thesis by (simp add: setChildren_def modify_absent)
      next
        case pcs: False
        with False Elem.prems(2) have ch: "childNodes ns p = Some Y" by (simp add: childNodes_Element)
        from Elem.IH(2)[OF d(2) ch rest Elem.prems(4)] False show ?thesis
          by (auto simp: setChildren_def)
      qed
    qed
  qed
qed

lemma idsl_withAttrs: "idsl (modify el (withAttrs g) st) = idsl st"
  by (induction st rule: idsl.induct) auto

lemma subnode_after_withAttrs:
  assumes "n \<in> set (subnodes st)" "el \<notin> set (idsl [n])"
  shows "n \<in> set (subnodes (modify el (withAttrs g) st))"
  using assms
proof (induction st rule: idsl.induct[case_names Nil Leaf Elem])
  case Nil
  then show ?case by simp
next
  case (Leaf j d ns)
  then show ?case by auto
next
  case (Elem j t a cs ns)
  from Elem.prems(1) consider (here) "n = Element j t a cs"
    | (inner) "n \<in> set (subnodes cs)" | (rest) "n \<in> set (subnodes ns)" by auto
  then show ?case
  proof cases
    case here
    with Elem.prems(2) have "el \<noteq> j" "el \<notin> set (idsl cs)" by auto
    with here show ?thesis by (simp add: modify_absent)
  next
    case inner
    from Elem.IH(1)[OF inner Elem.prems(2)] inner show ?thesis by auto
  next
    case rest
    from Elem.IH(2)[OF rest Elem.prems(2)] show ?thesis by auto
  qed
qed

lemma subnode_covers:
  assumes "distinct (idsl st)" "P \<in> set (subnodes st)" "R \<in> set (subnodes st)"
    "nodeId P \<in> set (idsl [R])"
  shows "P \<in> set (subnodes [R])"
proof -
  from assms(4) obtain m where m: "m \<in> set (subnodes [R])" "nodeId m = nodeId P"
    by (auto simp: idsl_subnodes)
  have "set (subnodes [R]) \<subseteq> set (subnodes st)"
    using assms(3) by (induction st rule: subnodes.induct) auto
  with m(1) have "m \<in> set (subnodes st)" by blast
  with assms(1,2) m(2) have "m = P" by (auto simp: idsl_subnodes distinct_map inj_on_def)
  with m(1) show ?thesis by simp
qed

lemma clean_unwrap_head:
  assumes "tagOf tn \<notin> SAFE_ELEMENTS" "tagOf tn \<notin> ALWAYS_DROP"
  shows "clean (pre @ Element i tn a cs # post) = clean (pre @ cs @ post)"
  using assms by (simp add: clean_append)

lemma clean_setChildren_unwrap:
  assumes "distinct (idsl ns)" "childNodes ns p = Some (pre @ Element i tn a cs # post)"
    "tagOf tn \<notin> SAFE_ELEMENTS" "tagOf tn \<notin> ALWAYS_DROP"
  shows "clean (setChildren p (pre @ cs @ post) ns) = clean ns"
  using assms(1,2)
proof (induction ns rule: idsl.induct[case_names Nil Leaf Elem])
  case Nil
  then show ?case by (simp add: childNodes_def)
next
  case (Leaf j d ns)
  then show ?case by (auto simp: childNodes_Leaf setChildren_def split: if_splits)
next
  case (Elem j t b ks ns)
  from Elem.prems(1) have d: "distinct (idsl ks)" "distinct (idsl ns)" by simp_all
  show ?case
  proof (cases "p = j")
    case True
    with Elem.prems(2) have ks: "ks = pre @ Element i tn a cs # post" by (simp add: childNodes_Element)
    from True Elem.prems(1) have "p \<notin> set (idsl ns)" by auto
    then have "setChildren p (pre @ cs @ post) (Element j t b ks # ns)
        = Element j t b (pre @ cs @ post) # ns"
      using True by (simp add: setChildren_def modify_absent)
    then show ?thesis
      using clean_unwrap_head[OF assms(3,4), of pre i a cs post] by (simp add: ks)
  next
    case False
    show ?thesis
    proof (cases "p \<in> set (idsl ks)")
      case True
      with False Elem.prems(2) have ch: "childNodes ks p = Some (pre @ Element i tn a cs # post)"
        by (simp add: childNodes_Element)
      from True Elem.prems(1) have "p \<notin> set (idsl ns)" by auto
      then have "setChildren p (pre @ cs @ post) (Element j t b ks # ns)
          = Element j t b (setChildren p (pre @ cs @ post) ks) # ns"
        using False by (simp add: setChildren_def modify_absent)
      then show ?thesis using Elem.IH(1)[OF d(1) ch] by simp
    next
      case pks: False
      with False Elem.prems(2) have ch: "childNodes ns p = Some (pre @ Element i tn a cs # post)"
        by (simp add: childNodes_Element)
      have "setChildren p (pre @ cs @ post) (Element j t b ks # ns)
          = Element j t b ks # setChildren p (pre @ cs @ post) ns"
        using False pks by (simp add: setChildren_def modify_absent)
      then show ?thesis using Elem.IH(2)[OF d(2) ch] by simp
    qed
  qed
qed

lemma childNodes_setChildren_other:
  assumes "distinct (idsl st)" "childNodes st r = Some ks" "r \<noteq> p" "p \<in> set (idsl ks)"
  shows "childNodes (setChildren p X st) r = Some (setChildren p X ks)"
  using assms(1,2)
proof (induction st rule: idsl.induct[case_names Nil Leaf Elem])
  case Nil
  then show ?case by (simp add: childNodes_def)
next
  case (Leaf j d ns)
  from Leaf.prems(2) have rj: "r \<noteq> j" and ch: "childNodes ns r = Some ks"
    by (auto simp: childNodes_Leaf split: if_splits)
  from childNodes_ids[OF ch] assms(4) Leaf.prems(1) have "p \<noteq> j" by auto
  with Leaf rj ch show ?case by (simp add: setChildren_def childNodes_Leaf)
next
  case (Elem j t b cs ns)
  from Elem.prems(1) have d: "distinct (idsl cs)" "distinct (idsl ns)" by simp_all
  show ?case
  proof (cases "r = j")
    case True
    with Elem.prems(2) have "ks = cs" by (simp add: childNodes_Element)
    with assms(3) True show ?thesis by (simp add: setChildren_def childNodes_Element)
  next
    case False
    show ?thesis
    proof (cases "r \<in> set (idsl cs)")
      case True
      with False Elem.prems(2) have ch: "childNodes cs r = Some ks" by (simp add: childNodes_Element)
      from childNodes_ids[OF ch] assms(4) have pcs: "p \<in> set (idsl cs)" by auto
      with Elem.prems(1) have pj: "p \<noteq> j" by auto
      from Elem.IH(1)[OF d(1) ch] have c': "childNodes (setChildren p X cs) r = Some (setChildren p X ks)" .
      from childNodes_ids[OF c'] have "r \<in> set (idsl (setChildren p X cs))" by simp
      with pj False c' show ?thesis by (simp add: setChildren_def childNodes_Element)
    next
      case rcs: False
      with False Elem.prems(2) have ch: "childNodes ns r = Some ks" by (simp add: childNodes_Element)
      from childNodes_ids[OF ch] assms(4) have "p \<in> set (idsl ns)" by auto
      with Elem.prems(1) have pj: "p \<noteq> j" and pcs: "p \<notin> set (idsl cs)" by auto
      with False rcs Elem.IH(2)[OF d(2) ch] show ?thesis
        by (simp add: setChildren_def childNodes_Element modify_absent)
    qed
  qed
qed

text \<open>
  C3. Let an element below the root have a tag of \<open>ALWAYS_DROP\<close>, in a state with
  distinct node identities. The classifier, applied to it, takes it out of the children
  of its parent and leaves it as the root of a detached tree, with the attributes and the
  descendants it had: it looks at neither. And the walk over the root returns without
  error, and no node of the subtree of that element, the element itself included, is
  among the nodes below the root afterwards, which are all that \<^verbatim>\<open>innerHTML\<close>
  serializes.
\<close>

theorem dropped_subtree_removed:
  assumes "distinct (idsl st)" "childNodes st root = Some ks"
    "Element i tn a ds \<in> set (subnodes ks)" "tagOf tn \<in> ALWAYS_DROP"
  shows "(\<exists>p pre post. childNodes st p = Some (pre @ Element i tn a ds # post) \<and>
            sanitizeElement st i = Some (Inr (setChildren p (pre @ post) st @ [Element i tn a ds]))) \<and>
         (\<exists>st' ks'. walkAndSanitize st root = Some (Inr st') \<and> childNodes st' root = Some ks' \<and>
            set (idsl [Element i tn a ds]) \<inter> set (idsl ks') = {})"
proof -
  let ?E = "Element i tn a ds"
  from subnode_has_parent[OF assms(1-3)] obtain p pre post where
    ch: "childNodes st p = Some (pre @ ?E # post)" by blast
  have "findNode i st = Some ?E" using child_found[OF assms(1) ch, of ?E] by simp
  from sanitizeElement_drop[OF this assms(4)] remove_child[OF assms(1) ch]
  have "sanitizeElement st i = Some (Inr (setChildren p (pre @ post) st @ [?E]))" by simp
  with ch have 1: "\<exists>p pre post. childNodes st p = Some (pre @ ?E # post) \<and>
            sanitizeElement st i = Some (Inr (setChildren p (pre @ post) st @ [?E]))" by blast
  from distinct_children[OF assms(1,2)] have "distinct (idsl ks)" .
  from clean_drop_disjoint[OF this assms(3,4)] walkAndSanitize_clean[OF assms(1,2)]
  have 2: "\<exists>st' ks'. walkAndSanitize st root = Some (Inr st') \<and> childNodes st' root = Some ks' \<and>
            set (idsl [?E]) \<inter> set (idsl ks') = {}" by blast
  from 1 2 show ?thesis by blast
qed

theorem dropped_subtree_removed_witness:
  "distinct (idsl exampleTrees) \<and> childNodes exampleTrees 2 = Some exampleBody \<and>
   Element 5 (foreignElement ''svg'') [(''viewBox'', ''0 0 1 1''), (''onload'', ''x()'')]
     [Element 6 (foreignElement ''a'') [(''viewBox'', ''0''), (''href'', ''javascript:x()'')]
        [Leaf 13 (TextData ''t'')]]
     \<in> set (subnodes exampleBody) \<and>
   tagOf (foreignElement ''svg'') \<in> ALWAYS_DROP \<and>
   (\<exists>st' ks'. walkAndSanitize exampleTrees 2 = Some (Inr st') \<and> childNodes st' 2 = Some ks' \<and>
      set (idsl [Element 5 (foreignElement ''svg'') [(''viewBox'', ''0 0 1 1''), (''onload'', ''x()'')]
                   [Element 6 (foreignElement ''a'') [(''viewBox'', ''0''), (''href'', ''javascript:x()'')]
                      [Leaf 13 (TextData ''t'')]]])
        \<inter> set (idsl ks') = {})"
proof -
  have h: "distinct (idsl exampleTrees)" "childNodes exampleTrees 2 = Some exampleBody"
    "Element 5 (foreignElement ''svg'') [(''viewBox'', ''0 0 1 1''), (''onload'', ''x()'')]
       [Element 6 (foreignElement ''a'') [(''viewBox'', ''0''), (''href'', ''javascript:x()'')]
        [Leaf 13 (TextData ''t'')]]
       \<in> set (subnodes exampleBody)"
    "tagOf (foreignElement ''svg'') \<in> ALWAYS_DROP"
    by code_simp+
  from dropped_subtree_removed[OF h] h show ?thesis by blast
qed

lemma subseq_clean: "subseq (idsl (clean ns)) (idsl ns)"
proof (induction ns rule: clean.induct)
  case 1
  then show ?case by simp
next
  case (2 i d ns)
  then show ?case by simp
next
  case (3 i t a cs ns)
  have r: "subseq (idsl (clean ns)) (i # idsl cs @ idsl ns)" if "subseq (idsl (clean ns)) (idsl ns)"
    using that by (intro list_emb_Cons list_emb_append2)
  have m: "subseq (idsl (clean cs) @ idsl (clean ns)) (idsl cs @ idsl ns)"
    if "subseq (idsl (clean cs)) (idsl cs)" "subseq (idsl (clean ns)) (idsl ns)"
    using that by (rule list_emb_append_mono)
  have u: "subseq (idsl (clean cs) @ idsl (clean ns)) (i # idsl cs @ idsl ns)"
    if "subseq (idsl (clean cs)) (idsl cs)" "subseq (idsl (clean ns)) (idsl ns)"
    using m[OF that] by (rule list_emb_Cons)
  show ?case
  proof (cases "tagOf t \<in> ALWAYS_DROP")
    case True
    with 3 r show ?thesis by simp
  next
    case nd: False
    show ?thesis
    proof (cases "tagOf t \<in> SAFE_ELEMENTS")
      case False
      with nd 3 u show ?thesis by (simp add: clean_append)
    next
      case True
      with nd 3 m show ?thesis by simp
    qed
  qed
qed

lemma inDroppedSubtree_Leaf [simp]: "inDroppedSubtree (Leaf j d # ns) k = inDroppedSubtree ns k"
  by (simp add: inDroppedSubtree_def)

lemma inDroppedSubtree_Element [simp]:
  "inDroppedSubtree (Element j t a cs # ns) k =
     ((tagOf t \<in> ALWAYS_DROP \<and> (k = j \<or> k \<in> set (idsl cs))) \<or>
      inDroppedSubtree cs k \<or> inDroppedSubtree ns k)"
  by (auto simp: inDroppedSubtree_def list_ex_iff)

lemma inDroppedSubtree_iff:
  "inDroppedSubtree ks k \<longleftrightarrow>
     (\<exists>i t a ds. Element i t a ds \<in> set (subnodes ks) \<and> tagOf t \<in> ALWAYS_DROP \<and>
        k \<in> set (idsl [Element i t a ds]))"
proof
  assume "inDroppedSubtree ks k"
  then obtain d where d: "d \<in> set (subnodes ks)" "alwaysDropped d" "k \<in> set (idsl [d])"
    by (auto simp: inDroppedSubtree_def list_ex_iff)
  show "\<exists>i t a ds. Element i t a ds \<in> set (subnodes ks) \<and> tagOf t \<in> ALWAYS_DROP \<and>
        k \<in> set (idsl [Element i t a ds])"
  proof (cases d)
    case (Leaf i x)
    with d(2) show ?thesis by simp
  next
    case (Element i t a ds)
    with d have "Element i t a ds \<in> set (subnodes ks) \<and> tagOf t \<in> ALWAYS_DROP \<and>
        k \<in> set (idsl [Element i t a ds])" by simp
    then show ?thesis by blast
  qed
next
  assume "\<exists>i t a ds. Element i t a ds \<in> set (subnodes ks) \<and> tagOf t \<in> ALWAYS_DROP \<and>
        k \<in> set (idsl [Element i t a ds])"
  then obtain i t a ds where "Element i t a ds \<in> set (subnodes ks)" "tagOf t \<in> ALWAYS_DROP"
    "k \<in> set (idsl [Element i t a ds])" by blast
  then have "\<exists>d \<in> set (subnodes ks). alwaysDropped d \<and> k \<in> set (idsl [d])"
    by (intro bexI[of _ "Element i t a ds"]) simp_all
  then show "inDroppedSubtree ks k" by (simp add: inDroppedSubtree_def list_ex_iff)
qed

lemma clean_keeps:
  assumes "n \<in> set (subnodes ns)" "\<not> unwrapped n" "\<not> inDroppedSubtree ns (nodeId n)"
  shows "nodeId n \<in> set (idsl (clean ns))"
  using assms
proof (induction ns rule: subnodes.induct[case_names Nil Leaf Elem])
  case Nil
  then show ?case by simp
next
  case (Leaf j d ns)
  then show ?case by auto
next
  case (Elem j t b cs ns)
  from Elem.prems(1) consider (here) "n = Element j t b cs"
    | (inner) "n \<in> set (subnodes cs)" | (rest) "n \<in> set (subnodes ns)" by auto
  then show ?case
  proof cases
    case here
    with Elem.prems(2,3) show ?thesis by auto
  next
    case inner
    then have k: "nodeId n \<in> set (idsl cs)" by (auto simp: idsl_subnodes)
    with Elem.prems(3) have nd: "tagOf t \<notin> ALWAYS_DROP" and "\<not> inDroppedSubtree cs (nodeId n)"
      by auto
    with Elem.IH(1)[OF inner Elem.prems(2)] have "nodeId n \<in> set (idsl (clean cs))" by simp
    with nd show ?thesis by (simp add: clean_append)
  next
    case rest
    from Elem.prems(3) have "\<not> inDroppedSubtree ns (nodeId n)" by simp
    with Elem.IH(2)[OF rest Elem.prems(2)] have "nodeId n \<in> set (idsl (clean ns))" by simp
    then show ?thesis by (simp add: clean_append)
  qed
qed

lemma clean_ids_iff:
  assumes "distinct (idsl ks)" "n \<in> set (subnodes ks)"
  shows "(nodeId n \<in> set (idsl (clean ks))) = (\<not> inDroppedSubtree ks (nodeId n) \<and> \<not> unwrapped n)"
proof
  assume k: "nodeId n \<in> set (idsl (clean ks))"
  have "\<not> inDroppedSubtree ks (nodeId n)"
  proof
    assume "inDroppedSubtree ks (nodeId n)"
    then obtain i t a ds where D: "Element i t a ds \<in> set (subnodes ks)" "tagOf t \<in> ALWAYS_DROP"
      "nodeId n \<in> set (idsl [Element i t a ds])"
      unfolding inDroppedSubtree_iff by blast
    from clean_drop_disjoint[OF assms(1) D(1,2)] D(3) k show False by blast
  qed
  moreover have "\<not> unwrapped n"
  proof
    assume u: "unwrapped n"
    then obtain i t a ds where n: "n = Element i t a ds" by (cases n) auto
    with u have "tagOf t \<notin> SAFE_ELEMENTS" by simp
    from clean_unsafe_absent[OF assms(1) assms(2)[unfolded n] this] k n show False by simp
  qed
  ultimately show "\<not> inDroppedSubtree ks (nodeId n) \<and> \<not> unwrapped n" by simp
next
  assume "\<not> inDroppedSubtree ks (nodeId n) \<and> \<not> unwrapped n"
  with assms(2) show "nodeId n \<in> set (idsl (clean ks))" by (simp add: clean_keeps)
qed

lemma clean_labels:
  "(\<lambda>n. (nodeId n, label n)) ` set (subnodes (clean ns))
     \<subseteq> (\<lambda>n. (nodeId n, label n)) ` set (subnodes ns)"
proof (induction ns rule: clean.induct)
  case 1
  then show ?case by simp
next
  case (2 i d ns)
  then show ?case by auto
next
  case (3 i t a cs ns)
  show ?case
  proof (cases "tagOf t \<in> ALWAYS_DROP")
    case True
    with 3 show ?thesis by auto
  next
    case nd: False
    show ?thesis
    proof (cases "tagOf t \<in> SAFE_ELEMENTS")
      case False
      with nd 3 show ?thesis by (auto simp: clean_append image_Un)
    next
      case True
      with nd 3 show ?thesis by (auto simp: image_Un)
    qed
  qed
qed

text \<open>
  C7, as amended. Let an element below the root have a tag that is neither in
  \<open>SAFE_ELEMENTS\<close> nor in \<open>ALWAYS_DROP\<close>, in a state with distinct node identities. The
  classifier, applied to it, puts its children, in their order, in its place among the
  children of its parent and leaves the element, now without children, as the root of a
  detached tree. And the walk over the root returns without error and leaves below the
  root what the three rules of the classifier, applied to the nodes below the root and in
  turn to what they leave, give (\<open>clean\<close>); the element is not among the nodes below the
  root afterwards; a descendant of the element is among them exactly when it is inside no
  always-dropped element and is not itself an element the walk unwraps; the nodes below
  the root stand in the document order they had and are the text they were or the element
  they were; and the walk leaves below the root what it leaves when it starts from the
  state in which the children already stand in the place of the element.
\<close>

theorem unwrapped_children_spliced:
  assumes "distinct (idsl st)" "childNodes st root = Some ks"
    "Element i tn a cs \<in> set (subnodes ks)"
    "tagOf tn \<notin> SAFE_ELEMENTS" "tagOf tn \<notin> ALWAYS_DROP"
  shows "\<exists>p pre post. childNodes st p = Some (pre @ Element i tn a cs # post) \<and>
           sanitizeElement st i =
             Some (Inr (setChildren p (pre @ cs @ post) st @ [Element i tn a []])) \<and>
           (\<exists>st1 st2 out. walkAndSanitize st root = Some (Inr st1) \<and>
              walkAndSanitize (setChildren p (pre @ cs @ post) st) root = Some (Inr st2) \<and>
              childNodes st1 root = Some out \<and> childNodes st2 root = Some out \<and>
              out = clean ks \<and> i \<notin> set (idsl out) \<and>
              (\<forall>n \<in> set (subnodes cs).
                 (nodeId n \<in> set (idsl out)) =
                   (\<not> inDroppedSubtree ks (nodeId n) \<and> \<not> unwrapped n)) \<and>
              subseq (idsl out) (idsl ks) \<and>
              (\<forall>m \<in> set (subnodes out).
                 \<exists>n \<in> set (subnodes ks). nodeId n = nodeId m \<and> label n = label m))"
proof -
  let ?E = "Element i tn a cs"
  from subnode_has_parent[OF assms(1-3)] obtain p pre post where
    ch: "childNodes st p = Some (pre @ ?E # post)"
    and pr: "p = root \<or> (\<exists>t b. Element p t b (pre @ ?E # post) \<in> set (subnodes ks))" by blast
  let ?X = "pre @ cs @ post"
  let ?st = "setChildren p ?X st"
  have fi: "findNode i st = Some ?E" using child_found[OF assms(1) ch, of ?E] by simp
  have s: "sanitizeElement st i = Some (Inr (?st @ [Element i tn a []]))"
    using sanitizeElement_unwrap[OF fi assms(5,4)] unwrapElement_child[OF assms(1) ch] by simp
  have dks: "distinct (idsl ks)" using assms(1,2) by (rule distinct_children)
  have "mset (idsl ?X) + mset (idsl [Element i tn a []]) = mset (idsl (pre @ ?E # post))" by simp
  from distinct_state[OF assms(1) ch this] have dst: "distinct (idsl ?st)" by simp
  have "\<exists>ks'. childNodes ?st root = Some ks' \<and> clean ks' = clean ks"
  proof (cases "p = root")
    case True
    with ch assms(2) have "ks = pre @ ?E # post" by simp
    moreover have "childNodes ?st root = Some ?X" using True childNodes_setChildren[OF ch] by simp
    ultimately show ?thesis using clean_unwrap_head[OF assms(4,5), of pre i a cs post] by simp
  next
    case False
    with pr obtain t b where P: "Element p t b (pre @ ?E # post) \<in> set (subnodes ks)" by blast
    from subnodes_ids[OF P] have pin: "p \<in> set (idsl ks)" by simp
    have chk: "childNodes ks p = Some (pre @ ?E # post)"
      using findNode_unique[OF dks P] by (simp add: childNodes_def)
    have "childNodes ?st root = Some (setChildren p ?X ks)"
      using childNodes_setChildren_other[OF assms(1,2) _ pin] False by blast
    with clean_setChildren_unwrap[OF dks chk assms(4,5)] show ?thesis by simp
  qed
  then obtain ks' where ks': "childNodes ?st root = Some ks'" "clean ks' = clean ks" by blast
  from walkAndSanitize_clean[OF assms(1,2)] obtain st1 where
    1: "walkAndSanitize st root = Some (Inr st1)" "childNodes st1 root = Some (clean ks)" by blast
  from walkAndSanitize_clean[OF dst ks'(1)] ks'(2) obtain st2 where
    2: "walkAndSanitize ?st root = Some (Inr st2)" "childNodes st2 root = Some (clean ks)" by auto
  have 3: "i \<notin> set (idsl (clean ks))" using dks assms(3,4) by (rule clean_unsafe_absent)
  have sub: "set (subnodes cs) \<subseteq> set (subnodes ks)" using assms(3) by (rule subnodes_children)
  have 4: "\<forall>n \<in> set (subnodes cs).
      (nodeId n \<in> set (idsl (clean ks))) = (\<not> inDroppedSubtree ks (nodeId n) \<and> \<not> unwrapped n)"
    using clean_ids_iff[OF dks] sub by blast
  have 5: "subseq (idsl (clean ks)) (idsl ks)" by (rule subseq_clean)
  have 6: "\<forall>m \<in> set (subnodes (clean ks)).
      \<exists>n \<in> set (subnodes ks). nodeId n = nodeId m \<and> label n = label m"
  proof
    fix m assume "m \<in> set (subnodes (clean ks))"
    then have "(nodeId m, label m) \<in> (\<lambda>n. (nodeId n, label n)) ` set (subnodes ks)"
      using clean_labels[of ks] by blast
    then show "\<exists>n \<in> set (subnodes ks). nodeId n = nodeId m \<and> label n = label m" by auto
  qed
  from 1 2 3 4 5 6 have "\<exists>st1 st2 out. walkAndSanitize st root = Some (Inr st1) \<and>
              walkAndSanitize ?st root = Some (Inr st2) \<and>
              childNodes st1 root = Some out \<and> childNodes st2 root = Some out \<and>
              out = clean ks \<and> i \<notin> set (idsl out) \<and>
              (\<forall>n \<in> set (subnodes cs).
                 (nodeId n \<in> set (idsl out)) =
                   (\<not> inDroppedSubtree ks (nodeId n) \<and> \<not> unwrapped n)) \<and>
              subseq (idsl out) (idsl ks) \<and>
              (\<forall>m \<in> set (subnodes out).
                 \<exists>n \<in> set (subnodes ks). nodeId n = nodeId m \<and> label n = label m)"
    by (intro exI[of _ st1] exI[of _ st2] exI[of _ "clean ks"] conjI refl)
  with ch s show ?thesis by blast
qed

theorem unwrapped_children_spliced_witness:
  "distinct (idsl exampleTrees) \<and> childNodes exampleTrees 2 = Some exampleBody \<and>
   Element 7 (htmlElement ''CUSTOM'') []
     [Leaf 8 (TextData ''hello''), Element 9 (htmlElement ''B'') [] [Leaf 10 (TextData ''world'')]]
     \<in> set (subnodes exampleBody) \<and>
   tagOf (htmlElement ''CUSTOM'') \<notin> SAFE_ELEMENTS \<and> tagOf (htmlElement ''CUSTOM'') \<notin> ALWAYS_DROP \<and>
   (\<exists>p pre post.
      childNodes exampleTrees p =
        Some (pre @ Element 7 (htmlElement ''CUSTOM'') []
                [Leaf 8 (TextData ''hello''),
                 Element 9 (htmlElement ''B'') [] [Leaf 10 (TextData ''world'')]] # post) \<and>
      sanitizeElement exampleTrees 7 =
        Some (Inr (setChildren p
                (pre @ [Leaf 8 (TextData ''hello''),
                        Element 9 (htmlElement ''B'') [] [Leaf 10 (TextData ''world'')]] @ post)
                exampleTrees @ [Element 7 (htmlElement ''CUSTOM'') [] []])) \<and>
      (\<exists>st1 out. walkAndSanitize exampleTrees 2 = Some (Inr st1) \<and>
         childNodes st1 2 = Some out \<and> out = clean exampleBody \<and> 7 \<notin> set (idsl out) \<and>
         8 \<in> set (idsl out) \<and> 9 \<in> set (idsl out) \<and> 10 \<in> set (idsl out) \<and>
         subseq (idsl out) (idsl exampleBody)))"
proof -
  let ?cs = "[Leaf 8 (TextData ''hello''),
              Element 9 (htmlElement ''B'') [] [Leaf 10 (TextData ''world'')]]"
  have h: "distinct (idsl exampleTrees)" "childNodes exampleTrees 2 = Some exampleBody"
    "Element 7 (htmlElement ''CUSTOM'') [] ?cs \<in> set (subnodes exampleBody)"
    "tagOf (htmlElement ''CUSTOM'') \<notin> SAFE_ELEMENTS" "tagOf (htmlElement ''CUSTOM'') \<notin> ALWAYS_DROP"
    by code_simp+
  have n: "Leaf 8 (TextData ''hello'') \<in> set (subnodes ?cs)"
    "Element 9 (htmlElement ''B'') [] [Leaf 10 (TextData ''world'')] \<in> set (subnodes ?cs)"
    "Leaf 10 (TextData ''world'') \<in> set (subnodes ?cs)"
    by simp_all
  have k: "\<not> inDroppedSubtree exampleBody 8 \<and> \<not> unwrapped (Leaf 8 (TextData ''hello''))"
    "\<not> inDroppedSubtree exampleBody 9 \<and>
     \<not> unwrapped (Element 9 (htmlElement ''B'') [] [Leaf 10 (TextData ''world'')])"
    "\<not> inDroppedSubtree exampleBody 10 \<and> \<not> unwrapped (Leaf 10 (TextData ''world''))"
    by code_simp+
  from unwrapped_children_spliced[OF h] obtain p pre post st1 st2 out where
    c: "childNodes exampleTrees p = Some (pre @ Element 7 (htmlElement ''CUSTOM'') [] ?cs # post)"
      "sanitizeElement exampleTrees 7 =
         Some (Inr (setChildren p (pre @ ?cs @ post) exampleTrees @
                    [Element 7 (htmlElement ''CUSTOM'') [] []]))"
    and w: "walkAndSanitize exampleTrees 2 = Some (Inr st1)" "childNodes st1 2 = Some out"
      "out = clean exampleBody" "7 \<notin> set (idsl out)" "subseq (idsl out) (idsl exampleBody)"
    and d: "\<forall>n \<in> set (subnodes ?cs).
        (nodeId n \<in> set (idsl out)) = (\<not> inDroppedSubtree exampleBody (nodeId n) \<and> \<not> unwrapped n)"
    by blast
  from d n(1) k(1) have 8: "8 \<in> set (idsl out)" by fastforce
  from d n(2) k(2) have 9: "9 \<in> set (idsl out)" by fastforce
  from d n(3) k(3) have 10: "10 \<in> set (idsl out)" by fastforce
  from w 8 9 10 have "\<exists>st1 out. walkAndSanitize exampleTrees 2 = Some (Inr st1) \<and>
         childNodes st1 2 = Some out \<and> out = clean exampleBody \<and> 7 \<notin> set (idsl out) \<and>
         8 \<in> set (idsl out) \<and> 9 \<in> set (idsl out) \<and> 10 \<in> set (idsl out) \<and>
         subseq (idsl out) (idsl exampleBody)"
    by blast
  with c h show ?thesis by blast
qed

text \<open>
  C7 as the claim states it, for every descendant, fails where a descendant of the
  unwrapped element is itself always dropped or unwrapped: the walk drops the
  \<^verbatim>\<open>script\<close> element inside the unknown element and unwraps the unknown element
  inside it, so neither of these two element descendants nor the text in the \<^verbatim>\<open>script\<close>
  element is in the output, which is the two texts \<^verbatim>\<open>hi\<close> and \<^verbatim>\<open>y\<close> alone.
\<close>

theorem unwrapped_children_counterexample:
  "childNodes (trees (htmlDocument exampleNested)) 2 = Some exampleNested \<and>
   exampleNested =
     [Element 3 (htmlElement ''CUSTOM'') []
        [Leaf 4 (TextData ''hi''),
         Element 5 (htmlElement ''SCRIPT'') [] [Leaf 6 (TextData ''s'')],
         Element 7 (htmlElement ''OTHER'') [] [Leaf 8 (TextData ''y'')]]] \<and>
   tagOf (htmlElement ''CUSTOM'') \<notin> SAFE_ELEMENTS \<and> tagOf (htmlElement ''CUSTOM'') \<notin> ALWAYS_DROP \<and>
   map_option (map_sum id (\<lambda>st. childNodes st 2))
     (walkAndSanitize (trees (htmlDocument exampleNested)) 2) =
     Some (Inr (Some [Leaf 4 (TextData ''hi''), Leaf 8 (TextData ''y'')]))"
  by code_simp

text \<open>
  C9. The walk applies the classifier to the elements that were below the root in the
  state it started from, in document order, whatever the classifier does to the state
  in between. And in any state with distinct node identities, the classifier applied to
  an element that is not below the root (it was detached with a dropped ancestor, say)
  returns without error and leaves the nodes below the root, which are all that
  \<^verbatim>\<open>innerHTML\<close> serializes, as they were.
\<close>

theorem detached_entry_noop:
  assumes "distinct (idsl st)" "childNodes st root = Some ks"
    "findNode el st = Some (Element el tn a cs)" "el \<noteq> root" "el \<notin> set (idsl ks)"
  shows "walkAndSanitize st root = forEachNode (elemsl ks) st \<and>
         (\<exists>st'. sanitizeElement st el = Some (Inr st') \<and> childNodes st' root = Some ks)"
proof -
  let ?E = "Element el tn a cs"
  let ?tag = "tagOf tn"
  have walk: "walkAndSanitize st root = forEachNode (elemsl ks) st"
    using assms(2) by (simp add: walkAndSanitize_def querySelectorAll_def)
  from childNodes_subnodes[OF assms(2)] obtain rt ra where
    R: "Element root rt ra ks \<in> set (subnodes st)" by blast
  let ?R = "Element root rt ra ks"
  have elR: "el \<notin> set (idsl [?R])" using assms(4,5) by simp
  have E: "?E \<in> set (subnodes st)" using assms(3) by (rule findNode_subnodes)
  have keepR: "childNodes st' root = Some ks"
    if "distinct (idsl st')" "?R \<in> set (subnodes st')" for st'
    using findNode_unique[OF that] by (simp add: childNodes_def)
  have "\<exists>st'. sanitizeElement st el = Some (Inr st') \<and> childNodes st' root = Some ks"
  proof (cases "?tag \<in> SAFE_ELEMENTS")
    case True
    from sanitizeElement_keep_cases[OF assms(3) True] obtain g where
      s: "sanitizeElement st el = Some (Inr (modify el (withAttrs g) st))" by blast
    have "distinct (idsl (modify el (withAttrs g) st))" using assms(1) by (simp add: idsl_withAttrs)
    moreover have "?R \<in> set (subnodes (modify el (withAttrs g) st))"
      using R elR by (rule subnode_after_withAttrs)
    ultimately show ?thesis using s keepR by blast
  next
    case unsafe: False
    have s0: "sanitizeElement st el = (if ?tag \<in> ALWAYS_DROP then Some (Inr (remove st el)) else unwrapElement st el)"
      using assms(3) unsafe by (simp add: sanitizeElement_def tagName_def Let_def)
    from subnodes_parent[OF E] show ?thesis
    proof
      assume "?E \<in> set st"
      from root_parentOf[OF assms(1) this] have "parentNode st el = None"
        by (simp add: parentNode_def)
      then have "sanitizeElement st el = Some (Inr st)"
        using s0 by (simp add: remove_def unwrapElement_def)
      with assms(2) show ?thesis by blast
    next
      assume "\<exists>j t a' c'. Element j t a' c' \<in> set (subnodes st) \<and> ?E \<in> set c'"
      then obtain p pt pa Y where P: "Element p pt pa Y \<in> set (subnodes st)" "?E \<in> set Y" by blast
      from P(2) obtain pre post where Y: "Y = pre @ ?E # post" by (auto dest: split_list)
      have ch: "childNodes st p = Some (pre @ ?E # post)"
        using findNode_unique[OF assms(1) P(1)] Y by (simp add: childNodes_def)
      have pR: "p \<notin> set (idsl [?R])"
      proof
        assume "p \<in> set (idsl [?R])"
        with subnode_covers[OF assms(1) P(1) R] have "Element p pt pa Y \<in> set (subnodes [?R])" by simp
        then have "set (subnodes Y) \<subseteq> set (subnodes [?R])" by (rule subnodes_children)
        with P(2) set_subset_subnodes[of Y] have "?E \<in> set (subnodes [?R])" by blast
        from subnodes_ids[OF this] have "el \<in> set (idsl [?R])" by auto
        with elR show False by simp
      qed
      have RE: "?R \<noteq> ?E" using assms(4) by auto
      define X D where "X = (if ?tag \<in> ALWAYS_DROP then pre @ post else pre @ cs @ post)"
        and "D = (if ?tag \<in> ALWAYS_DROP then [?E] else [Element el tn a []])"
      have s: "sanitizeElement st el = Some (Inr (setChildren p X st @ D))"
        using s0 remove_child[OF assms(1) ch] unwrapElement_child[OF assms(1) ch]
        by (simp add: X_def D_def)
      have "mset (idsl X) + mset (idsl D) = mset (idsl (pre @ ?E # post))"
        by (simp add: X_def D_def)
      from distinct_state[OF assms(1) ch this] have d': "distinct (idsl (setChildren p X st @ D))" .
      have XD: "set (subnodes (pre @ ?E # post)) \<subseteq> insert ?E (set (subnodes X) \<union> set (subnodes D))"
        by (auto simp: X_def D_def)
      have "set (subnodes X) \<subseteq> set (subnodes (setChildren p X st))"
      proof -
        from childNodes_setChildren[OF ch] have "childNodes (setChildren p X st) p = Some X" .
        from childNodes_subnodes[OF this] obtain t' a' where
          "Element p t' a' X \<in> set (subnodes (setChildren p X st))" by blast
        then show ?thesis by (rule subnodes_children)
      qed
      with subnode_after_setChildren[OF assms(1) ch R pR, of X] XD RE
      have "?R \<in> set (subnodes (setChildren p X st @ D))" by auto
      with s d' keepR show ?thesis by blast
    qed
  qed
  with walk show ?thesis by blast
qed

theorem detached_entry_noop_witness:
  "distinct (idsl (remove exampleTrees 5)) \<and>
   childNodes (remove exampleTrees 5) 2 = Some exampleAfterDrop \<and>
   findNode 6 (remove exampleTrees 5) =
     Some (Element 6 (foreignElement ''a'') [(''viewBox'', ''0''), (''href'', ''javascript:x()'')]
             [Leaf 13 (TextData ''t'')]) \<and>
   (6 :: nat) \<noteq> 2 \<and> 6 \<notin> set (idsl exampleAfterDrop) \<and>
   walkAndSanitize (remove exampleTrees 5) 2 =
     forEachNode (elemsl exampleAfterDrop) (remove exampleTrees 5) \<and>
   (\<exists>st'. sanitizeElement (remove exampleTrees 5) 6 = Some (Inr st') \<and>
      childNodes st' 2 = Some exampleAfterDrop)"
proof -
  have h: "distinct (idsl (remove exampleTrees 5))"
    "childNodes (remove exampleTrees 5) 2 = Some exampleAfterDrop"
    "findNode 6 (remove exampleTrees 5) =
       Some (Element 6 (foreignElement ''a'') [(''viewBox'', ''0''), (''href'', ''javascript:x()'')]
               [Leaf 13 (TextData ''t'')])"
    "(6 :: nat) \<noteq> 2" "6 \<notin> set (idsl exampleAfterDrop)"
    by code_simp+
  from detached_entry_noop[OF h] h show ?thesis by blast
qed

section \<open>Properties of the entry point\<close>

lemma insertBefore_error: "insertBefore st p n c = Inl e \<Longrightarrow> e \<noteq> NoDomAvailable"
  unfolding insertBefore_def
  by (cases "childNodes st p"; cases "findNode n st") (auto split: if_splits)

lemma unwrapLoop_error: "unwrapLoop st p el = Some y \<Longrightarrow> y \<noteq> Inl NoDomAvailable"
proof (induction rule: unwrapLoop.raw_induct[rotated 1, consumes 1])
  case (1 loop st parent el y)
  note IH = 1(1) and eq = 1(2)
  show ?case
  proof (cases "firstChild st el")
    case None
    with eq show ?thesis by auto
  next
    case (Some c)
    show ?thesis
    proof (cases "insertBefore st parent c el")
      case (Inl e)
      with Some eq insertBefore_error[OF Inl] show ?thesis by auto
    next
      case (Inr st')
      with Some eq have "loop st' parent el = Some y" by simp
      then show ?thesis by (rule IH)
    qed
  qed
qed

lemma attrLoop_error: "attrLoop tag el snap st = Inl e \<Longrightarrow> e \<noteq> NoDomAvailable"
proof (induction snap arbitrary: st)
  case Nil
  then show ?case by simp
next
  case (Cons av snap)
  obtain n v where av: "av = (n, v)" by (cases av)
  show ?case
  proof (cases "isAllowedAttr tag (toLowerCase n)")
    case (Inl e')
    then have "e' = TypeError"
      by (cases "TAG_ATTRS tag") (auto simp: isAllowedAttr_def Let_def split: if_splits)
    with Inl Cons.prems show ?thesis by (simp add: av Let_def)
  next
    case (Inr b)
    from Cons.prems Inr have "attrLoop tag el snap st = Inl e \<or>
        attrLoop tag el snap (removeAttribute st el n) = Inl e"
      by (simp add: av Let_def split: if_splits)
    with Cons.IH show ?thesis by blast
  qed
qed

lemma tagName_error: "tagName st el = Inl e \<Longrightarrow> e = TypeError"
  by (auto simp: tagName_def split: option.splits node.splits)

lemma unwrapElement_error: "unwrapElement st el = Some (Inl e) \<Longrightarrow> e \<noteq> NoDomAvailable"
proof (cases "parentNode st el")
  case None
  assume "unwrapElement st el = Some (Inl e)"
  with None show ?thesis by (simp add: unwrapElement_def)
next
  case (Some p)
  assume u: "unwrapElement st el = Some (Inl e)"
  show ?thesis
  proof (cases "unwrapLoop st p el")
    case None
    with Some u show ?thesis by (simp add: unwrapElement_def)
  next
    case (Some y)
    with unwrapLoop_error[OF Some] u \<open>parentNode st el = Some p\<close> show ?thesis
      by (cases y) (auto simp: unwrapElement_def)
  qed
qed

lemma ensureSafeLinkAttrs_error: "ensureSafeLinkAttrs st el = Inl e \<Longrightarrow> e = TypeError"
  by (cases "tagName st el") (auto simp: ensureSafeLinkAttrs_def Let_def dest: tagName_error split: if_splits)

lemma sanitizeElement_error:
  assumes "sanitizeElement st el = Some (Inl e)"
  shows "e \<noteq> NoDomAvailable"
proof (cases "tagName st el")
  case (Inl e')
  with assms tagName_error[OF Inl] show ?thesis by (simp add: sanitizeElement_def)
next
  case (Inr tn)
  let ?tag = "toLowerCase tn"
  show ?thesis
  proof (cases "?tag \<in> ALWAYS_DROP")
    case True
    with Inr assms show ?thesis by (simp add: sanitizeElement_def Let_def)
  next
    case nd: False
    show ?thesis
    proof (cases "?tag \<in> SAFE_ELEMENTS")
      case False
      with nd Inr assms have "unwrapElement st el = Some (Inl e)"
        by (simp add: sanitizeElement_def Let_def)
      then show ?thesis by (rule unwrapElement_error)
    next
      case True
      show ?thesis
      proof (cases "attrLoop ?tag el (attributes st el) st")
        case (Inl e')
        with True nd Inr assms have "e' = e" by (simp add: sanitizeElement_def Let_def)
        with attrLoop_error[OF Inl] show ?thesis by simp
      next
        case (Inr st')
        with True nd \<open>tagName st el = Inr tn\<close> assms have "ensureSafeLinkAttrs st' el = Inl e"
          by (simp add: sanitizeElement_def Let_def)
        from ensureSafeLinkAttrs_error[OF this] show ?thesis by simp
      qed
    qed
  qed
qed

lemma forEachNode_error: "forEachNode ns st = Some (Inl e) \<Longrightarrow> e \<noteq> NoDomAvailable"
proof (induction ns arbitrary: st)
  case Nil
  then show ?case by simp
next
  case (Cons n ns)
  show ?case
  proof (cases "sanitizeElement st n")
    case None
    with Cons.prems show ?thesis by simp
  next
    case (Some r)
    show ?thesis
    proof (cases r)
      case (Inl e')
      with Some Cons.prems have "sanitizeElement st n = Some (Inl e)" by simp
      then show ?thesis by (rule sanitizeElement_error)
    next
      case (Inr st')
      with Some Cons.prems have "forEachNode ns st' = Some (Inl e)" by simp
      then show ?thesis by (rule Cons.IH)
    qed
  qed
qed

lemma walkAndSanitize_error:
  assumes "walkAndSanitize st r = Some (Inl e)"
  shows "e \<noteq> NoDomAvailable"
proof (cases "childNodes st r")
  case None
  with assms show ?thesis by (simp add: walkAndSanitize_def querySelectorAll_def)
next
  case (Some ks)
  with assms have "forEachNode (elemsl ks) st = Some (Inl e)"
    by (simp add: walkAndSanitize_def querySelectorAll_def)
  then show ?thesis by (rule forEachNode_error)
qed

lemma sanitize_with_builder:
  assumes "usesBuilder dp cd f" "f h = Some doc"
  shows "sanitize ser dp (Some h) (Options cd) =
           (case walkAndSanitize (trees doc) (body doc) of
              Some (Inr st') \<Rightarrow> Some (innerHTML ser st' (body doc))
            | Some (Inl e) \<Rightarrow> Some (Inl e)
            | None \<Rightarrow> None)"
  using assms by (auto simp: usesBuilder_def sanitize_def split: jsvalue.splits)

lemma sanitize_builder_nothing:
  assumes "usesBuilder dp cd f" "f h = None"
  shows "sanitize ser dp (Some h) (Options cd) = Some (Inl TypeError)"
  using assms by (auto simp: usesBuilder_def sanitize_def split: jsvalue.splits)

lemma sanitize_without_builder:
  assumes "\<forall>f. \<not> usesBuilder dp cd f"
  shows "sanitize ser dp (Some h) (Options cd) = Some (Inl NoDomAvailable)"
  using assms by (auto simp: usesBuilder_def sanitize_def split: jsvalue.splits option.splits)

lemma sanitize_clean:
  assumes "usesBuilder dp cd f" "f h = Some doc" "distinct (idsl (trees doc))"
    "childNodes (trees doc) (body doc) = Some ks"
  obtains st' where "walkAndSanitize (trees doc) (body doc) = Some (Inr st')"
    "childNodes st' (body doc) = Some (clean ks)"
    "sanitize ser dp (Some h) (Options cd) = Some (Inr (ser (content (clean ks))))"
proof -
  from walkAndSanitize_clean[OF assms(3,4)] obtain st' where
    st': "walkAndSanitize (trees doc) (body doc) = Some (Inr st')"
      "childNodes st' (body doc) = Some (clean ks)" by blast
  have "sanitize ser dp (Some h) (Options cd) = Some (Inr (ser (content (clean ks))))"
    using st' by (simp add: sanitize_with_builder[OF assms(1,2)] innerHTML_def)
  with st' that show ?thesis by blast
qed

lemma sanitize_error_builder:
  assumes e: "sanitize ser dp (Some h) (Options cd) = Some (Inl NoDomAvailable)"
    and u: "usesBuilder dp cd f"
  shows False
proof (cases "f h")
  case None
  from e sanitize_builder_nothing[OF u None, of ser] show False by simp
next
  case (Some doc)
  note e' = e[unfolded sanitize_with_builder[OF u Some]]
  show False
  proof (cases "walkAndSanitize (trees doc) (body doc)")
    case None
    with e' show False by simp
  next
    case (Some r)
    show False
    proof (cases r)
      case (Inl x)
      with Some e' walkAndSanitize_error[of "trees doc" "body doc" x] show False by simp
    next
      case (Inr st')
      with Some e' show False
        by (cases "childNodes st' (body doc)") (simp_all add: innerHTML_def)
    qed
  qed
qed

lemma sanitize_permitted:
  assumes u: "usesBuilder dp cd f" and f: "f h = Some doc" and d: "distinct (idsl (trees doc))"
    and ch: "childNodes (trees doc) (body doc) = Some ks"
  shows "\<exists>st' out. walkAndSanitize (trees doc) (body doc) = Some (Inr st') \<and>
         childNodes st' (body doc) = Some out \<and>
         sanitize ser dp (Some h) (Options cd) = Some (Inr (ser (content out))) \<and>
         list_all tagPermitted (subnodes out) \<and>
         (keptAll wfAttrs ks \<longrightarrow> list_all nodePermitted (subnodes out))"
proof -
  from u f d ch obtain st' where
    1: "walkAndSanitize (trees doc) (body doc) = Some (Inr st')"
    and 2: "childNodes st' (body doc) = Some (clean ks)"
    and 3: "sanitize ser dp (Some h) (Options cd) = Some (Inr (ser (content (clean ks))))"
    by (rule sanitize_clean)
  have 4: "list_all tagPermitted (subnodes (clean ks))" by (rule clean_tagPermitted)
  have 5: "keptAll wfAttrs ks \<longrightarrow> list_all nodePermitted (subnodes (clean ks))"
    using clean_permitted by blast
  from 1 2 3 4 5 show ?thesis by (intro exI conjI)
qed

lemma usesBuilder_Function: "usesBuilder dp (Function f) f"
  by (simp add: usesBuilder_def)

text \<open>
  C8, as amended. For \<^verbatim>\<open>null\<close> the entry point returns the empty string whatever the
  options and the builders are: it calls no builder. For a string and options that are
  not \<^verbatim>\<open>null\<close> it raises its own error (the code throws a plain \<^verbatim>\<open>Error\<close>, the
  \<open>ConfigurationError\<close> of the specification) exactly when \<^verbatim>\<open>options.createDocument\<close> is
  not a function and there is no ambient \<^verbatim>\<open>DOMParser\<close>, so that no builder is called. In
  every other such case, where the builder it calls returns a document (its nodes with
  distinct identities) that has a body, the walk returns without error and the entry
  point returns the serialization of the children of the body as the completed walk
  leaves them: there is no outcome in between. Every element among them has a tag of
  \<open>SAFE_ELEMENTS\<close>; and where the elements that the walk keeps had the attribute lists of
  the data model, every attribute among them is permitted. In the cases that are left the
  entry point raises a \<^verbatim>\<open>TypeError\<close>: for a string and options that are \<^verbatim>\<open>null\<close>, and
  where the builder it calls returns nothing, or a document without body.
\<close>

theorem sanitize_outcomes:
  "sanitize ser dp None opts = Some (Inr []) \<and>
   (sanitize ser dp (Some h) (Options cd) = Some (Inl NoDomAvailable)) =
     (\<forall>f. \<not> usesBuilder dp cd f) \<and>
   (\<forall>f doc ks. usesBuilder dp cd f \<and> f h = Some doc \<and> distinct (idsl (trees doc)) \<and>
        childNodes (trees doc) (body doc) = Some ks \<longrightarrow>
      (\<exists>st' out. walkAndSanitize (trees doc) (body doc) = Some (Inr st') \<and>
         childNodes st' (body doc) = Some out \<and>
         sanitize ser dp (Some h) (Options cd) = Some (Inr (ser (content out))) \<and>
         list_all tagPermitted (subnodes out) \<and>
         (keptAll wfAttrs ks \<longrightarrow> list_all nodePermitted (subnodes out)))) \<and>
   sanitize ser dp (Some h) NullOptions = Some (Inl TypeError) \<and>
   (\<forall>f. usesBuilder dp cd f \<and> f h = None \<longrightarrow>
      sanitize ser dp (Some h) (Options cd) = Some (Inl TypeError)) \<and>
   (\<forall>f doc. usesBuilder dp cd f \<and> f h = Some doc \<and> childNodes (trees doc) (body doc) = None \<longrightarrow>
      sanitize ser dp (Some h) (Options cd) = Some (Inl TypeError))"
proof -
  have 1: "sanitize ser dp None opts = Some (Inr [])" by (simp add: sanitize_def)
  have 2: "(sanitize ser dp (Some h) (Options cd) = Some (Inl NoDomAvailable)) =
      (\<forall>f. \<not> usesBuilder dp cd f)"
  proof
    assume e: "sanitize ser dp (Some h) (Options cd) = Some (Inl NoDomAvailable)"
    show "\<forall>f. \<not> usesBuilder dp cd f"
    proof (rule allI, rule notI)
      fix f assume "usesBuilder dp cd f"
      with e show False by (rule sanitize_error_builder)
    qed
  next
    assume "\<forall>f. \<not> usesBuilder dp cd f"
    then show "sanitize ser dp (Some h) (Options cd) = Some (Inl NoDomAvailable)"
      by (rule sanitize_without_builder)
  qed
  have 3: "\<forall>f doc ks. usesBuilder dp cd f \<and> f h = Some doc \<and> distinct (idsl (trees doc)) \<and>
        childNodes (trees doc) (body doc) = Some ks \<longrightarrow>
      (\<exists>st' out. walkAndSanitize (trees doc) (body doc) = Some (Inr st') \<and>
         childNodes st' (body doc) = Some out \<and>
         sanitize ser dp (Some h) (Options cd) = Some (Inr (ser (content out))) \<and>
         list_all tagPermitted (subnodes out) \<and>
         (keptAll wfAttrs ks \<longrightarrow> list_all nodePermitted (subnodes out)))"
  proof (intro allI impI)
    fix f doc ks
    assume "usesBuilder dp cd f \<and> f h = Some doc \<and> distinct (idsl (trees doc)) \<and>
        childNodes (trees doc) (body doc) = Some ks"
    then have "usesBuilder dp cd f" "f h = Some doc" "distinct (idsl (trees doc))"
      "childNodes (trees doc) (body doc) = Some ks" by simp_all
    then show "\<exists>st' out. walkAndSanitize (trees doc) (body doc) = Some (Inr st') \<and>
         childNodes st' (body doc) = Some out \<and>
         sanitize ser dp (Some h) (Options cd) = Some (Inr (ser (content out))) \<and>
         list_all tagPermitted (subnodes out) \<and>
         (keptAll wfAttrs ks \<longrightarrow> list_all nodePermitted (subnodes out))"
      by (rule sanitize_permitted)
  qed
  have 4: "sanitize ser dp (Some h) NullOptions = Some (Inl TypeError)" by (simp add: sanitize_def)
  have 5: "\<forall>f. usesBuilder dp cd f \<and> f h = None \<longrightarrow>
      sanitize ser dp (Some h) (Options cd) = Some (Inl TypeError)"
    using sanitize_builder_nothing by blast
  have 6: "\<forall>f doc. usesBuilder dp cd f \<and> f h = Some doc \<and> childNodes (trees doc) (body doc) = None \<longrightarrow>
      sanitize ser dp (Some h) (Options cd) = Some (Inl TypeError)"
    by (auto simp: sanitize_with_builder walkAndSanitize_def querySelectorAll_def)
  from 1 2 3 4 5 6 show ?thesis by (intro conjI)
qed

theorem sanitize_outcomes_witness:
  "usesBuilder None (Function tableBuilder) tableBuilder \<and>
   tableBuilder ''<svg viewBox=0><a href=//x>t</a></svg><p>ok</p>'' =
     Some (htmlDocument
       [Element 3 (foreignElement ''svg'') [(''viewBox'', ''0'')]
          [Element 4 (foreignElement ''a'') [(''href'', ''//x'')] [Leaf 5 (TextData ''t'')]],
        Element 6 (htmlElement ''P'') [] [Leaf 7 (TextData ''ok'')]]) \<and>
   distinct (idsl (trees (htmlDocument
       [Element 3 (foreignElement ''svg'') [(''viewBox'', ''0'')]
          [Element 4 (foreignElement ''a'') [(''href'', ''//x'')] [Leaf 5 (TextData ''t'')]],
        Element 6 (htmlElement ''P'') [] [Leaf 7 (TextData ''ok'')]]))) \<and>
   keptAll wfAttrs
     [Element 3 (foreignElement ''svg'') [(''viewBox'', ''0'')]
        [Element 4 (foreignElement ''a'') [(''href'', ''//x'')] [Leaf 5 (TextData ''t'')]],
      Element 6 (htmlElement ''P'') [] [Leaf 7 (TextData ''ok'')]] \<and>
   sanitize htmlSerializer None None NullOptions = Some (Inr []) \<and>
   (\<exists>out.
      sanitize htmlSerializer None (Some ''<svg viewBox=0><a href=//x>t</a></svg><p>ok</p>'')
          (Options (Function tableBuilder)) =
        Some (Inr (htmlSerializer (content out))) \<and>
      list_all nodePermitted (subnodes out)) \<and>
   factoryBuilder [] = None \<and>
   sanitize htmlSerializer None (Some []) (Options (Function factoryBuilder)) = Some (Inl TypeError)"
proof -
  let ?h = "''<svg viewBox=0><a href=//x>t</a></svg><p>ok</p>''"
  let ?ks = "[Element 3 (foreignElement ''svg'') [(''viewBox'', ''0'')]
                [Element 4 (foreignElement ''a'') [(''href'', ''//x'')] [Leaf 5 (TextData ''t'')]],
              Element 6 (htmlElement ''P'') [] [Leaf 7 (TextData ''ok'')]]"
  have u: "usesBuilder None (Function tableBuilder) tableBuilder" by (rule usesBuilder_Function)
  have v: "usesBuilder None (Function factoryBuilder) factoryBuilder" by (rule usesBuilder_Function)
  have f: "tableBuilder ?h = Some (htmlDocument ?ks)"
    and d: "distinct (idsl (trees (htmlDocument ?ks)))"
    and ch: "childNodes (trees (htmlDocument ?ks)) (body (htmlDocument ?ks)) = Some ?ks"
    and w: "keptAll wfAttrs ?ks"
    and n: "factoryBuilder [] = None"
    by code_simp+
  note t = sanitize_outcomes[of htmlSerializer None NullOptions ?h "Function tableBuilder"]
  note a = t[THEN conjunct1]
  from t[THEN conjunct2, THEN conjunct2, THEN conjunct1, rule_format,
      OF conjI[OF u conjI[OF f conjI[OF d ch]]]] w
  have c: "\<exists>out.
      sanitize htmlSerializer None (Some ?h) (Options (Function tableBuilder)) =
        Some (Inr (htmlSerializer (content out))) \<and>
      list_all nodePermitted (subnodes out)"
    by blast
  note t' = sanitize_outcomes[of htmlSerializer None NullOptions "[]" "Function factoryBuilder"]
  from t'[THEN conjunct2, THEN conjunct2, THEN conjunct2, THEN conjunct2, THEN conjunct1,
      rule_format, OF conjI[OF v n]]
  have e: "sanitize htmlSerializer None (Some []) (Options (Function factoryBuilder)) =
      Some (Inl TypeError)" .
  from u f d w a c n e show ?thesis by (intro conjI)
qed

text \<open>
  C8 as the claim states it fails in three ways. For options that are \<^verbatim>\<open>null\<close> (the
  default \<^verbatim>\<open>{}\<close> stands for \<^verbatim>\<open>undefined\<close> only) reading \<^verbatim>\<open>options.createDocument\<close>
  throws a \<^verbatim>\<open>TypeError\<close>, which is neither the error of the entry point nor a string.
  Where the builder returns a document without body, the walk throws a \<^verbatim>\<open>TypeError\<close>
  too. And where the builder returns a paragraph with an attribute named \<^verbatim>\<open>ONCLICK\<close>,
  the string returned still has it.
\<close>

theorem sanitize_outcomes_counterexample:
  "sanitize htmlSerializer None (Some ''<p>x</p>'') NullOptions = Some (Inl TypeError) \<and>
   sanitize htmlSerializer None (Some ''<x/>'') (Options (Function factoryBuilder)) =
     Some (Inl TypeError) \<and>
   sanitize htmlSerializer None (Some ''<p>x</p>'') (Options (Function factoryBuilder)) =
     Some (Inr (''<p ONCLICK='' @ quoted ''e()'' @ ''>x</p>''))"
  by code_simp

section \<open>Idempotence\<close>

lemma toLowerCase_append: "toLowerCase (a @ b) = toLowerCase a @ toLowerCase b"
  by (simp add: toLowerCase_def)

lemma toLowerCase_join: "toLowerCase (join sep ts) = join (toLowerCase sep) (map toLowerCase ts)"
  by (induction ts rule: induct_list012) (simp_all add: toLowerCase_append, simp add: toLowerCase_def)

lemma toLowerCase_fixed: "(\<forall>c \<in> set t. lowerChar c = c) \<Longrightarrow> toLowerCase t = t"
  by (simp add: toLowerCase_def map_idI)

lemma lower_token:
  assumes "t \<in> set (splitWs (toLowerCase s))"
  shows "toLowerCase t = t"
proof (rule toLowerCase_fixed, rule ballI)
  fix c assume "c \<in> set t"
  with splitWs_free[OF assms] have "c \<in> set (toLowerCase s)" by blast
  then show "lowerChar c = c" by (auto simp: toLowerCase_def lowerChar_idem)
qed

lemma lower_noopener: "toLowerCase ''noopener'' = ''noopener''" "toLowerCase ''noreferrer'' = ''noreferrer''"
  "toLowerCase '' '' = '' ''"
  by code_simp+

lemma relTokens_lower:
  assumes "t \<in> set (relTokens r)"
  shows "toLowerCase t = t"
proof -
  let ?s = "case map_option toLowerCase r of None \<Rightarrow> [] | Some v \<Rightarrow> v"
  have s: "?s = toLowerCase (case r of None \<Rightarrow> [] | Some v \<Rightarrow> v)"
    by (cases r) (simp_all add: toLowerCase_def)
  from assms have "t \<in> set (splitWs ?s) \<or> t = ''noopener'' \<or> t = ''noreferrer''"
    by (auto simp: relTokens_spec_eq relTokens_spec_def Let_def split: if_splits)
  then show ?thesis using lower_token[of t "case r of None \<Rightarrow> [] | Some v \<Rightarrow> v"] lower_noopener
    unfolding s by auto
qed

lemma relTokens_props:
  "list_all token (relTokens r)" "distinct (relTokens r)"
  "''noopener'' \<in> set (relTokens r)" "''noreferrer'' \<in> set (relTokens r)"
  unfolding relTokens_spec_eq
  using relTokens_spec_tokens[of "map_option toLowerCase r"]
  by (auto simp: relTokens_spec_def Let_def)

lemma relTokens_fix: "relTokens (Some (join '' '' (relTokens r))) = relTokens r"
proof -
  let ?ts = "relTokens r"
  have "map toLowerCase ?ts = ?ts" using relTokens_lower[of _ r] by (simp add: map_idI)
  then have l: "toLowerCase (join '' '' ?ts) = join '' '' ?ts"
    by (simp add: toLowerCase_join lower_noopener)
  have t: "filter (\<lambda>s. s \<noteq> []) (splitWs (join '' '' ?ts)) = ?ts"
    using relTokens_props(1) by (rule tokens_join)
  have "relTokens (Some (join '' '' ?ts)) =
      newSet ?ts @ filter (\<lambda>t. t \<notin> set (newSet ?ts)) [''noopener'', ''noreferrer'']"
    by (simp add: relTokens_spec_eq[of "Some _"] relTokens_spec_def l t Let_def)
  also have "\<dots> = ?ts"
    using relTokens_props(2,3,4)[of r] by (simp add: newSet_distinct)
  finally show ?thesis .
qed

lemma map_of_setAttr: "map_of (setAttr qn v a) k = (if k = qn then Some v else map_of a k)"
  by (induction a) auto

lemma setAttr_idem: "setAttr qn v (setAttr qn v a) = setAttr qn v a"
  by (induction a) auto

lemma map_fst_setAttr:
  "map fst (setAttr qn v a) = (if qn \<in> fst ` set a then map fst a else map fst a @ [qn])"
proof (induction a)
  case Nil
  then show ?case by simp
next
  case (Cons x a)
  obtain n w where x: "x = (n, w)" by (cases x)
  show ?case
  proof (cases "n = qn")
    case True
    then show ?thesis by (simp add: x)
  next
    case False
    then have "(qn \<in> fst ` set (x # a)) = (qn \<in> fst ` set a)" by (auto simp: x)
    with False Cons show ?thesis by (simp add: x)
  qed
qed

lemma keepsAttr_rel: "toLowerCase (fst x) = ''rel'' \<Longrightarrow> keepsAttr ''a'' x"
  by (simp add: keepsAttr_def isAllowedAttr_def Let_def startsWith_def GLOBAL_ATTRS_def TAG_ATTRS_def)

text \<open>
  The attribute loop on its own result, for an attribute list without two attributes of
  the same name: an entry that is not kept has made the loop remove the attribute with
  the qualified name \<^verbatim>\<open>removeAttribute\<close> makes of its name, so no attribute has that
  name any more, and the second loop finds nothing to remove.
\<close>

lemma attrFold_fixed:
  assumes d: "distinct (map fst b)"
    and k: "\<And>y. y \<in> set b \<Longrightarrow> \<not> keepsAttr tag y \<Longrightarrow> qualifiedName e (fst y) \<notin> fst ` set b"
  shows "attrFold tag e b b = b"
proof -
  have "filter (\<lambda>av. fst av \<notin> (\<lambda>x. qualifiedName e (fst x)) ` {x \<in> set b. \<not> keepsAttr tag x}) b = b"
    unfolding filter_id_conv using k by force
  with attrFold_filter[OF d, of tag e b] show ?thesis by simp
qed

lemma attrFold_result:
  assumes d: "distinct (map fst a)" and y: "y \<in> set (attrFold tag e a a)" "\<not> keepsAttr tag y"
  shows "qualifiedName e (fst y) \<notin> fst ` set (attrFold tag e a a)"
proof
  let ?Rm = "(\<lambda>x. qualifiedName e (fst x)) ` {x \<in> set a. \<not> keepsAttr tag x}"
  assume "qualifiedName e (fst y) \<in> fst ` set (attrFold tag e a a)"
  then obtain z where z: "z \<in> set (attrFold tag e a a)" "fst z = qualifiedName e (fst y)" by auto
  from z(1) have "fst z \<notin> ?Rm" by (simp add: attrFold_filter[OF d])
  moreover from y set_attrFold[of tag e a a] have "qualifiedName e (fst y) \<in> ?Rm" by blast
  ultimately show False using z(2) by simp
qed

lemma cleanAttrs_idem:
  assumes d: "distinct (map fst a)"
  shows "cleanAttrs e (cleanAttrs e a) = cleanAttrs e a"
proof -
  let ?tag = "tagOf e"
  let ?R = "attrFold ?tag e a a"
  have dR: "distinct (map fst ?R)" using d by (rule distinct_attrFold)
  note K = attrFold_result[OF d, of _ ?tag e]
  show ?thesis
  proof (cases "?tag = ''a'' \<and> map_of ?R ''target'' = Some ''_blank''")
    case True
    let ?v = "join '' '' (relTokens (map_of ?R ''rel''))"
    let ?a' = "setAttr ''rel'' ?v ?R"
    have a': "cleanAttrs e a = ?a'"
      by (simp only: cleanAttrs_def hardenAttrs_def if_P[OF True])
    have d': "distinct (map fst ?a')" using dR by (simp add: map_fst_setAttr)
    have names: "fst ` set ?a' \<subseteq> insert ''rel'' (fst ` set ?R)"
      using set_setAttr[of "''rel''" ?v ?R] by force
    have k': "qualifiedName e (fst y) \<notin> fst ` set ?a'" if y: "y \<in> set ?a'" "\<not> keepsAttr ?tag y" for y
    proof
      assume q: "qualifiedName e (fst y) \<in> fst ` set ?a'"
      from y(2) True have nr: "toLowerCase (fst y) \<noteq> ''rel''" using keepsAttr_rel[of y] by auto
      then have "fst y \<noteq> ''rel''" by auto
      with y(1) set_setAttr[of "''rel''" ?v ?R] have yR: "y \<in> set ?R" by auto
      have "qualifiedName e (fst y) \<noteq> ''rel''"
      proof
        assume "qualifiedName e (fst y) = ''rel''"
        then have "toLowerCase (qualifiedName e (fst y)) = toLowerCase ''rel''" by (rule arg_cong)
        with nr show False by simp
      qed
      with q names have "qualifiedName e (fst y) \<in> fst ` set ?R" by blast
      with K[OF yR y(2)] show False by simp
    qed
    have f': "attrFold ?tag e ?a' ?a' = ?a'" using d' k' by (rule attrFold_fixed)
    have t': "map_of ?a' ''target'' = map_of ?R ''target''"
      by (simp only: map_of_setAttr) simp
    have cond': "?tag = ''a'' \<and> map_of ?a' ''target'' = Some ''_blank''"
      using True unfolding t' .
    have r': "map_of ?a' ''rel'' = Some ?v" by (simp only: map_of_setAttr refl if_True)
    have v': "join '' '' (relTokens (map_of ?a' ''rel'')) = ?v"
      by (simp only: r' relTokens_fix)
    have "cleanAttrs e ?a' = hardenAttrs ?tag ?a'"
      by (simp only: cleanAttrs_def f')
    also have "\<dots> = setAttr ''rel'' ?v ?a'"
      by (simp only: hardenAttrs_def if_P[OF cond'] v')
    also have "\<dots> = ?a'" by (rule setAttr_idem)
    finally show ?thesis unfolding a' .
  next
    case False
    have a': "cleanAttrs e a = ?R"
      by (simp only: cleanAttrs_def hardenAttrs_def if_not_P[OF False])
    have f': "attrFold ?tag e ?R ?R = ?R" using dR K by (rule attrFold_fixed)
    have "cleanAttrs e ?R = hardenAttrs ?tag ?R" by (simp only: cleanAttrs_def f')
    also have "\<dots> = ?R" by (simp only: hardenAttrs_def if_not_P[OF False])
    finally show ?thesis unfolding a' .
  qed
qed

lemma clean_idem: "keptAll distinctNames ns \<Longrightarrow> clean (clean ns) = clean ns"
proof (induction ns rule: idsl.induct[case_names Nil Leaf Elem])
  case Nil
  then show ?case by simp
next
  case (Leaf i d ns)
  then show ?case by simp
next
  case (Elem i t a cs ns)
  show ?case
  proof (cases "tagOf t \<in> ALWAYS_DROP")
    case True
    with Elem show ?thesis by simp
  next
    case nd: False
    show ?thesis
    proof (cases "tagOf t \<in> SAFE_ELEMENTS")
      case False
      with nd Elem show ?thesis by (simp add: clean_append)
    next
      case True
      with nd Elem.prems have w: "distinctNames t a" "keptAll distinctNames cs"
        "keptAll distinctNames ns" by simp_all
      from w(1) have da: "distinct (map fst a)" by (simp add: distinctNames_def)
      from True nd Elem.IH(1)[OF w(2)] Elem.IH(2)[OF w(3)] cleanAttrs_idem[OF da]
      show ?thesis by simp
    qed
  qed
qed

subsection \<open>What the parser reads back\<close>

lemma content_append: "content (xs @ ys) = content xs @ content ys"
  by (induction xs rule: content.induct) auto

lemma cleanMarkup_append: "cleanMarkup (xs @ ys) = cleanMarkup xs @ cleanMarkup ys"
  by (induction xs rule: cleanMarkup.induct) auto

lemma content_clean: "content (clean xs) = cleanMarkup (content xs)"
  by (induction xs rule: clean.induct) (auto simp: content_append)

lemma joinText_Nil [simp]: "joinText [] ms = ms"
  by (cases "([] :: string, ms)" rule: joinText.cases) auto

lemma joinText_joinText: "joinText s (joinText t ms) = joinText (s @ t) ms"
  by (cases "(t, ms)" rule: joinText.cases) auto

lemma mergeText_joinText_append: "mergeText (joinText s X @ B) = joinText s (mergeText (X @ B))"
  by (cases "(s, X)" rule: joinText.cases) (auto simp: joinText_joinText)

lemma mergeText_joinText: "mergeText (joinText s X) = joinText s (mergeText X)"
  using mergeText_joinText_append[of s X "[]"] by simp

lemma mergeText_idem [simp]: "mergeText (mergeText m) = mergeText m"
  by (induction m rule: mergeText.induct) (auto simp: mergeText_joinText)

lemma mergeText_append_right: "mergeText (A @ mergeText B) = mergeText (A @ B)"
  by (induction A rule: mergeText.induct) auto

lemma mergeText_append_left: "mergeText (mergeText A @ B) = mergeText (A @ B)"
  by (induction A rule: mergeText.induct) (auto simp: mergeText_joinText_append)

lemma mergeText_append: "mergeText (A @ B) = mergeText (mergeText A @ mergeText B)"
  by (simp add: mergeText_append_left mergeText_append_right)

lemma mergeText_cleanMarkup_joinText:
  "mergeText (cleanMarkup (joinText s X)) = joinText s (mergeText (cleanMarkup X))"
  by (cases "(s, X)" rule: joinText.cases) (auto simp: joinText_joinText)

lemma mergeText_cleanMarkup: "mergeText (cleanMarkup (mergeText m)) = mergeText (cleanMarkup m)"
proof (induction m rule: mergeText.induct)
  case 1
  then show ?case by simp
next
  case (2 s ms)
  then show ?case by (simp add: mergeText_cleanMarkup_joinText)
next
  case (3 s ms)
  then show ?case by simp
next
  case (4 e a cs ms)
  show ?case
  proof (cases "tagOf e \<in> ALWAYS_DROP")
    case True
    with 4 show ?thesis by simp
  next
    case nd: False
    show ?thesis
    proof (cases "tagOf e \<in> SAFE_ELEMENTS")
      case False
      have "mergeText (cleanMarkup (mergeText cs) @ cleanMarkup (mergeText ms))
          = mergeText (mergeText (cleanMarkup (mergeText cs)) @ mergeText (cleanMarkup (mergeText ms)))"
        by (rule mergeText_append)
      also have "\<dots> = mergeText (mergeText (cleanMarkup cs) @ mergeText (cleanMarkup ms))"
        by (simp only: 4)
      also have "\<dots> = mergeText (cleanMarkup cs @ cleanMarkup ms)"
        by (rule mergeText_append[symmetric])
      finally show ?thesis using nd False by simp
    next
      case True
      with nd 4 show ?thesis by simp
    qed
  qed
qed

lemma toLowerCase_is: "toLowerCase ''is'' = ''is''"
  by code_simp

lemma not_keepsAttr_is: "\<not> keepsAttr tag (''is'', v)"
  by (cases "TAG_ATTRS tag")
    (auto simp: keepsAttr_def isAllowedAttr_def Let_def toLowerCase_is startsWith_def
      GLOBAL_ATTRS_def TAG_ATTRS_def split: if_splits)

lemma cleanAttrs_dropIsAttr: "cleanAttrs e (dropIsAttr e a) = cleanAttrs e a"
proof (cases a)
  case Nil
  then show ?thesis by simp
next
  case (Cons x as)
  obtain n v where x: "x = (n, v)" by (cases x)
  show ?thesis
  proof (cases "n = ''is'' \<and> isValueOf e = Some v")
    case True
    then have "attrFold (tagOf e) e a a = attrFold (tagOf e) e as as"
      by (simp add: Cons x not_keepsAttr_is)
    with True show ?thesis by (simp add: Cons x cleanAttrs_def)
  next
    case False
    then show ?thesis by (auto simp: Cons x)
  qed
qed

lemma cleanMarkup_dropIs: "cleanMarkup (dropIs m) = cleanMarkup m"
  by (induction m rule: cleanMarkup.induct) (auto simp: cleanAttrs_dropIsAttr)

lemma mergeText_cleanMarkup_readBack:
  "mergeText (cleanMarkup (readBack m)) = mergeText (cleanMarkup m)"
  by (simp add: readBack_def mergeText_cleanMarkup cleanMarkup_dropIs)

lemma escapeText_append: "escapeText (s @ t) = escapeText s @ escapeText t"
  by (simp add: escapeText_def)

lemma serialize_joinText:
  "serialize raw (joinText s X) = (if raw then s else escapeText s) @ serialize raw X"
  by (cases "(s, X)" rule: joinText.cases) (auto simp: escapeText_append escapeText_def)

lemma serialize_mergeText: "serialize raw (mergeText m) = serialize raw m"
  by (induction raw m rule: serialize.induct) (auto simp: serialize_joinText)

lemma htmlSerializer_mergeText: "htmlSerializer (mergeText m) = htmlSerializer m"
  by (simp add: htmlSerializer_def serialize_mergeText)

text \<open>
  C5, as amended. Let the entry point return \<open>out\<close> for the input \<open>h\<close>, where the
  children of the body of the document built for \<open>h\<close> are \<open>ks\<close> and no element among
  them that the walk keeps has two attributes of the same name. Let the builder read
  \<open>out\<close> back as the sanitized tree that was serialized, up to the two differences that
  no parser can avoid (adjacent text nodes come back as one, a written \<^emph>\<open>is\<close> value
  comes back as the first attribute), and let the serializer write adjacent text nodes as
  it writes their concatenation. Then the entry point returns \<open>out\<close> for \<open>out\<close>: a
  second walk changes nothing in a sanitized tree. (The nodes of both documents have
  distinct identities.)
\<close>

theorem sanitize_idempotent:
  assumes "usesBuilder dp cd f" "f h = Some doc" "f out = Some doc'"
    "distinct (idsl (trees doc))" "distinct (idsl (trees doc'))"
    "sanitize ser dp (Some h) (Options cd) = Some (Inr out)"
    "childNodes (trees doc) (body doc) = Some ks" "keptAll distinctNames ks"
    "map_option readBack (bodyContent (trees doc') (body doc')) =
       map_option readBack (sanitizedContent doc)"
    "\<forall>m. ser (mergeText m) = ser m"
  shows "sanitize ser dp (Some out) (Options cd) = Some (Inr out)"
proof -
  from assms(1,2,4,7) obtain st1 where
    1: "walkAndSanitize (trees doc) (body doc) = Some (Inr st1)"
    "childNodes st1 (body doc) = Some (clean ks)"
    "sanitize ser dp (Some h) (Options cd) = Some (Inr (ser (content (clean ks))))"
    by (rule sanitize_clean)
  from 1(3) assms(6) have out: "out = ser (content (clean ks))" by simp
  from 1(1,2) have "sanitizedContent doc = Some (content (clean ks))"
    by (simp add: sanitizedContent_def bodyContent_def)
  with assms(9) obtain ks2 where ch2: "childNodes (trees doc') (body doc') = Some ks2"
    and c2: "readBack (content ks2) = readBack (content (clean ks))"
    by (auto simp: bodyContent_def)
  from assms(1,3,5) ch2 have
    2: "sanitize ser dp (Some out) (Options cd) = Some (Inr (ser (content (clean ks2))))"
    by (rule sanitize_clean)
  have "mergeText (content (clean ks2)) = mergeText (cleanMarkup (readBack (content ks2)))"
    by (simp only: content_clean mergeText_cleanMarkup_readBack)
  also have "\<dots> = mergeText (cleanMarkup (readBack (content (clean ks))))"
    by (simp only: c2)
  also have "\<dots> = mergeText (content (clean (clean ks)))"
    by (simp only: content_clean mergeText_cleanMarkup_readBack)
  also have "\<dots> = mergeText (content (clean ks))"
    by (simp only: clean_idem[OF assms(8)])
  finally have "ser (mergeText (content (clean ks2))) = ser (mergeText (content (clean ks)))"
    by simp
  with assms(10) have "ser (content (clean ks2)) = ser (content (clean ks))" by simp
  with 2 show ?thesis by (simp add: out)
qed

theorem sanitize_idempotent_witness:
  "usesBuilder None (Function tableBuilder) tableBuilder \<and>
   tableBuilder ''<p>a<script>s</script>b</p>'' =
     Some (htmlDocument
       [Element 3 (htmlElement ''P'') []
          [Leaf 4 (TextData ''a''),
           Element 5 (htmlElement ''SCRIPT'') [] [Leaf 6 (TextData ''s'')],
           Leaf 7 (TextData ''b'')]]) \<and>
   tableBuilder ''<p>ab</p>'' =
     Some (htmlDocument [Element 3 (htmlElement ''P'') [] [Leaf 4 (TextData ''ab'')]]) \<and>
   sanitize htmlSerializer None (Some ''<p>a<script>s</script>b</p>'') (Options (Function tableBuilder)) =
     Some (Inr ''<p>ab</p>'') \<and>
   keptAll distinctNames
     [Element 3 (htmlElement ''P'') []
        [Leaf 4 (TextData ''a''),
         Element 5 (htmlElement ''SCRIPT'') [] [Leaf 6 (TextData ''s'')],
         Leaf 7 (TextData ''b'')]] \<and>
   sanitizedContent (htmlDocument
       [Element 3 (htmlElement ''P'') []
          [Leaf 4 (TextData ''a''),
           Element 5 (htmlElement ''SCRIPT'') [] [Leaf 6 (TextData ''s'')],
           Leaf 7 (TextData ''b'')]]) =
     Some [MElement (htmlElement ''P'') [] [MLeaf (TextData ''a''), MLeaf (TextData ''b'')]] \<and>
   bodyContent (trees (htmlDocument [Element 3 (htmlElement ''P'') [] [Leaf 4 (TextData ''ab'')]])) 2 =
     Some [MElement (htmlElement ''P'') [] [MLeaf (TextData ''ab'')]] \<and>
   sanitize htmlSerializer None (Some ''<p>ab</p>'') (Options (Function tableBuilder)) =
     Some (Inr ''<p>ab</p>'') \<and>
   sanitize htmlSerializer None (Some ''<a is=x href=/d>t</a>'') (Options (Function tableBuilder)) =
     Some (Inr (''<a is='' @ quoted ''x'' @ '' href='' @ quoted ''/d'' @ ''>t</a>'')) \<and>
   sanitize htmlSerializer None
       (Some (''<a is='' @ quoted ''x'' @ '' href='' @ quoted ''/d'' @ ''>t</a>''))
       (Options (Function tableBuilder)) =
     Some (Inr (''<a is='' @ quoted ''x'' @ '' href='' @ quoted ''/d'' @ ''>t</a>''))"
proof -
  let ?h = "''<p>a<script>s</script>b</p>''"
  let ?o = "''<p>ab</p>''"
  let ?ks = "[Element 3 (htmlElement ''P'') []
                [Leaf 4 (TextData ''a''),
                 Element 5 (htmlElement ''SCRIPT'') [] [Leaf 6 (TextData ''s'')],
                 Leaf 7 (TextData ''b'')]]"
  let ?ko = "[Element 3 (htmlElement ''P'') [] [Leaf 4 (TextData ''ab'')]]"
  let ?g = "''<a is=x href=/d>t</a>''"
  let ?q = "''<a is='' @ quoted ''x'' @ '' href='' @ quoted ''/d'' @ ''>t</a>''"
  have u: "usesBuilder None (Function tableBuilder) tableBuilder" by (rule usesBuilder_Function)
  have s: "\<forall>m. htmlSerializer (mergeText m) = htmlSerializer m"
    by (simp add: htmlSerializer_mergeText)
  have b: "tableBuilder ?h = Some (htmlDocument ?ks)" "tableBuilder ?o = Some (htmlDocument ?ko)"
    by code_simp+
  have h: "distinct (idsl (trees (htmlDocument ?ks)))" "distinct (idsl (trees (htmlDocument ?ko)))"
    "sanitize htmlSerializer None (Some ?h) (Options (Function tableBuilder)) = Some (Inr ?o)"
    "childNodes (trees (htmlDocument ?ks)) (body (htmlDocument ?ks)) = Some ?ks"
    "keptAll distinctNames ?ks"
    "map_option readBack (bodyContent (trees (htmlDocument ?ko)) (body (htmlDocument ?ko))) =
       map_option readBack (sanitizedContent (htmlDocument ?ks))"
    by code_simp+
  have n: "sanitizedContent (htmlDocument ?ks) =
      Some [MElement (htmlElement ''P'') [] [MLeaf (TextData ''a''), MLeaf (TextData ''b'')]]"
    "bodyContent (trees (htmlDocument ?ko)) 2 =
      Some [MElement (htmlElement ''P'') [] [MLeaf (TextData ''ab'')]]"
    by code_simp+
  have c: "tableBuilder ?g = Some (htmlDocument exampleIs)"
    "tableBuilder ?q = Some (htmlDocument exampleIs)"
    by code_simp+
  have g: "distinct (idsl (trees (htmlDocument exampleIs)))"
    "distinct (idsl (trees (htmlDocument exampleIs)))"
    "sanitize htmlSerializer None (Some ?g) (Options (Function tableBuilder)) = Some (Inr ?q)"
    "childNodes (trees (htmlDocument exampleIs)) (body (htmlDocument exampleIs)) = Some exampleIs"
    "keptAll distinctNames exampleIs"
    "map_option readBack (bodyContent (trees (htmlDocument exampleIs)) (body (htmlDocument exampleIs))) =
       map_option readBack (sanitizedContent (htmlDocument exampleIs))"
    by code_simp+
  note 1 = sanitize_idempotent[OF u b h s]
  note 2 = sanitize_idempotent[OF u c g s]
  from u b h(3,5) n 1 g(3) 2 show ?thesis by (intro conjI)
qed

text \<open>
  C5 as the claim states it, for all input strings, fails in two ways. With a builder
  that parses as the HTML Standard says, the input \<^verbatim>\<open><p><button><p>x</p></button></p>\<close>
  is parsed with the inner \<^verbatim>\<open>p\<close> nested in the \<^verbatim>\<open>button\<close>; the walk unwraps the
  \<^verbatim>\<open>button\<close>, and the output \<^verbatim>\<open><p><p>x</p></p>\<close> is a tree no parser builds from that
  string: parsed again it is three sibling \<^verbatim>\<open>p\<close> elements, and the second output
  differs from the first. And with a builder that returns an anchor with two attributes
  named \<^verbatim>\<open>href\<close>, the first walk removes the first of them for the second, and the
  second walk, over the output read back, removes the one that was left.
\<close>

theorem sanitize_idempotent_counterexample:
  "sanitize htmlSerializer None (Some ''<p><button><p>x</p></button></p>'')
       (Options (Function tableBuilder)) =
     Some (Inr ''<p><p>x</p></p>'') \<and>
   sanitize htmlSerializer None (Some ''<p><p>x</p></p>'') (Options (Function tableBuilder)) =
     Some (Inr ''<p></p><p>x</p><p></p>'') \<and>
   sanitize htmlSerializer None (Some ''<a href=/ok>t</a>'') (Options (Function factoryBuilder)) =
     Some (Inr (''<a href='' @ quoted ''javascript:alert(1)'' @ ''>t</a>'')) \<and>
   sanitize htmlSerializer None (Some (''<a href='' @ quoted ''javascript:alert(1)'' @ ''>t</a>''))
       (Options (Function factoryBuilder)) =
     Some (Inr ''<a>t</a>'')"
  by code_simp

section \<open>Scenarios of the specification\<close>

text \<open>
  Scenarios of section 8, with the builder and the serializer of the examples: a
  \<^verbatim>\<open>script\<close> element is dropped with its text, an unknown element is unwrapped, an
  \<^verbatim>\<open>svg\<close> element is dropped with the foreign elements in it whatever their attributes
  are. And two observations: the \<^emph>\<open>is\<close> value of an element is written by the
  serializer though the walk has removed the \<^verbatim>\<open>is\<close> attribute; and \<open>isAllowedAttr\<close>
  raises a \<^verbatim>\<open>TypeError\<close> for a tag that is the name of a property inherited from
  \<^verbatim>\<open>Object.prototype\<close> (the classifier passes no such tag).
\<close>

lemma scenario_script:
  "sanitize htmlSerializer None (Some ''<p>hi<script>alert(1)</script></p>'')
     (Options (Function tableBuilder)) = Some (Inr ''<p>hi</p>'')"
  by code_simp

lemma scenario_custom:
  "sanitize htmlSerializer None (Some ''<custom>hello<b>world</b></custom>'')
     (Options (Function tableBuilder)) = Some (Inr ''hello<b>world</b>'')"
  by code_simp

lemma scenario_svg:
  "sanitize htmlSerializer None (Some ''<svg viewBox=0><a href=//x>t</a></svg><p>ok</p>'')
     (Options (Function tableBuilder)) = Some (Inr ''<p>ok</p>'')"
  by code_simp

lemma scenario_detached_foreign:
  "map_option (map_sum id (findNode 6)) (sanitizeElement (remove exampleTrees 5) 6) =
     Some (Inr (Some (Element 6 (foreignElement ''a'') [] [Leaf 13 (TextData ''t'')])))"
  by code_simp

lemma scenario_is_value:
  "map_option (map_sum id (\<lambda>st. childNodes st 2)) (walkAndSanitize (trees (htmlDocument exampleIs)) 2) =
     Some (Inr (Some
       [Element 3 (Einfo HTMLElement ''A'' (Some ''x'')) [(''href'', ''/d'')] [Leaf 4 (TextData ''t'')]])) \<and>
   sanitize htmlSerializer None (Some ''<a is=x href=/d>t</a>'') (Options (Function tableBuilder)) =
     Some (Inr (''<a is='' @ quoted ''x'' @ '' href='' @ quoted ''/d'' @ ''>t</a>''))"
  by code_simp

lemma scenario_inherited_property: "isAllowedAttr ''constructor'' ''x'' = Inl TypeError"
  by code_simp

lemma scenario_walk:
  "map_option (map_sum id (\<lambda>st. childNodes st 2)) (walkAndSanitize exampleTrees 2) =
     Some (Inr (Some
       [Element 3 (htmlElement ''P'') [(''title'', ''ok'')] [Leaf 4 (TextData ''hi'')],
        Leaf 8 (TextData ''hello''),
        Element 9 (htmlElement ''B'') [] [Leaf 10 (TextData ''world'')],
        Element 11 (htmlElement ''A'')
          [(''target'', ''_blank''), (''rel'', ''nofollow x noopener noreferrer'')]
          [Leaf 12 (TextData ''x'')]]))"
  by code_simp

end
